theory Spec2Isabelle
  imports Main "HOL-Library.Product_Lexorder"
begin

section \<open>The Catalog, as tracking.py reads and writes it\<close>

text \<open>
  An Inode row of the Catalog: the owning volume's id, the inode number, the size and
  the \<open>has_updates\<close> flag. Sizes come from the filesystem's inode items (unsigned), so
  they are naturals; the window bounds are Python integers and can reach \<open>-1\<close>.
\<close>

record inode =
  vol_id :: nat
  ino :: nat
  isize :: nat
  has_updates :: bool

definition key :: "inode \<Rightarrow> nat \<times> nat" where
  "key i = (vol_id i, ino i)"

text \<open>A DedupEvent with its DedupEventInode rows (the \<open>(vol, ino)\<close> pairs).\<close>

record dedup_event =
  ev_fs :: nat
  item_size :: nat
  ev_inodes :: "(nat \<times> nat) list"

datatype errno = ENOENT | ETXTBSY | EACCES | EIO

datatype sync_mode = SyncNormal | SyncFull

datatype notice =
    Too_many_duplicates nat nat int int
  | File_busy inode
  | Access_denied inode
  | File_moved inode
  | File_in_use inode
  | Files_differ inode inode
  | Deduplicated inode inode
  | Same_extents inode inode
  | Space_gain int int int

text \<open>
  What the pass does to the outside world, in order: \<open>tt.notify\<close> messages, files opened
  read-write, \<open>setrlimit\<close> and \<open>clone_data\<close> calls, commits, checkpoint requests and the
  arguments of each \<open>clear_updates\<close> call.
\<close>

datatype effect =
    Note notice
  | Open_rw inode
  | Setrlimit int int
  | Clone_data inode inode
  | Commit
  | Please_checkpoint
  | Clear_updates "int option" int

datatype error =
    IOError errno
  | TypeError
  | IndexError
  | OverflowError
  | Assert_same_fs
  | Assert_files_differ inode inode

text \<open>
  The session, the WindowedQuery's skip list, the checkpointer thread's status, the
  connection's pragmas, and the locals of \<open>dedup_tracked1\<close> that outlive one group.

  An inode on the skip list is the session's object as the window's query loaded it: its
  \<open>has_updates\<close> is the value the object holds. \<open>expire_on_commit\<close> is the session's option
  of that name (the session is made outside tracking.py; the library's default is on):
  with it, a commit unloads every object of the session. \<open>expired\<close> lists the keys of the
  skip-list objects that a commit has unloaded since they were appended; nothing reads
  such an object again before \<open>clear_updates\<close>.
\<close>

record state =
  rows :: "inode list"
  skipped :: "inode list"
  expire_on_commit :: bool
  expired :: "(nat \<times> nat) list"
  events :: "dedup_event list"
  synchronous :: sync_mode
  wal_autocheckpoint :: bool
  checkpointer_alive :: bool
  checkpointer_done :: bool
  ofile_soft :: int
  ofile_hard :: int
  space_gain1 :: int
  space_gain2 :: int
  space_gain3 :: int
  log :: "effect list"

type_synonym 'a result = "(error \<times> state) + 'a"

definition emit :: "effect list \<Rightarrow> state \<Rightarrow> state" where
  "emit es st = st\<lparr>log := log st @ es\<rparr>"

text \<open>\<open>sess.delete(inode)\<close>: the row with that inode's key leaves the table.\<close>

definition sess_delete :: "inode \<Rightarrow> state \<Rightarrow> state" where
  "sess_delete i st = st\<lparr>rows := filter (\<lambda>r. key r \<noteq> key i) (rows st)\<rparr>"

text \<open>\<open>sess.commit()\<close> while the pass is in a window.\<close>

definition sess_commit :: "state \<Rightarrow> state" where
  "sess_commit st =
     emit [Commit]
       (st\<lparr>expired := (if expire_on_commit st then map key (skipped st) else expired st)\<rparr>)"

subsection \<open>Checkpointer\<close>

definition please_checkpoint :: "state \<Rightarrow> state" where
  "please_checkpoint st = emit [Please_checkpoint] (st\<lparr>checkpointer_alive := True\<rparr>)"

definition checkpointer_close :: "state \<Rightarrow> state" where
  "checkpointer_close st =
     (if \<not> checkpointer_alive st then st
      else st\<lparr>checkpointer_done := True, checkpointer_alive := False\<rparr>)"

section \<open>WindowedQuery\<close>

text \<open>
  The SQL expression objects that \<open>clear_updates\<close> builds from the size column.
  \<open>window_start >= column\<close> is the column's reflected comparison, \<open>column <= window_start\<close>.
\<close>

datatype clause = Size_le "int option" | Size_ge int

fun holds :: "clause \<Rightarrow> nat \<Rightarrow> bool" where
  "holds (Size_le None) s = False"
| "holds (Size_le (Some b)) s = (int s \<le> b)"
| "holds (Size_ge b) s = (b \<le> int s)"

text \<open>
  Python's chained comparison \<open>a >= col >= b\<close> is \<open>(a >= col) and (col >= b)\<close>: the first
  comparison's expression object is asked for its truth value, and \<open>and\<close> gives the second
  operand when that is true and the first operand otherwise. The truth value of an
  expression object is the SQL library's (outside this repository): the parameter
  \<open>truth\<close>, with \<open>None\<close> when the library raises TypeError instead.
\<close>

definition chained_ge ::
  "(clause \<Rightarrow> bool option) \<Rightarrow> int option \<Rightarrow> int \<Rightarrow> error + clause" where
  "chained_ge truth window_start window_end =
     (let c1 = Size_le window_start in
      case truth c1 of
        None \<Rightarrow> Inl TypeError
      | Some b \<Rightarrow> Inr (if b then Size_ge window_end else c1))"

text \<open>
  \<open>clear_updates\<close> (lines 307-321): the UPDATE over the rows that meet \<open>filt_crit\<close> and the
  clause, the skip list's objects assigned \<open>has_updates = True\<close>, commit, a checkpoint
  request, the skip list emptied.

  The UPDATE is a Core statement and goes past the session's objects. The assignment is
  on the session's object, and the commit flushes an attribute only when the assignment
  changed it: on an object that holds \<open>True\<close> it is no change, nothing is written, and the
  row keeps what the UPDATE left. It is written when the object holds \<open>False\<close>, or when the
  object was unloaded by a commit and so holds no value.
\<close>

definition assignment_flushed :: "state \<Rightarrow> inode \<Rightarrow> bool" where
  "assignment_flushed st i = (\<not> has_updates i \<or> key i \<in> set (expired st))"

definition clear_updates ::
  "(clause \<Rightarrow> bool option) \<Rightarrow> (inode \<Rightarrow> bool) \<Rightarrow> int option \<Rightarrow> int \<Rightarrow> state \<Rightarrow> state result"
  where
  "clear_updates truth filt_crit window_start window_end st =
     (case chained_ge truth window_start window_end of
        Inl e \<Rightarrow> Inl (e, st)
      | Inr crit \<Rightarrow>
          let rows1 = map (\<lambda>r. if filt_crit r \<and> holds crit (isize r)
                                then r\<lparr>has_updates := False\<rparr> else r) (rows st);
              rows2 = map (\<lambda>r. if list_ex (\<lambda>i. key i = key r \<and> assignment_flushed st i)
                                     (skipped st)
                                then r\<lparr>has_updates := True\<rparr> else r) rows1
          in Inr (please_checkpoint
                    (emit [Clear_updates window_start window_end, Commit]
                       (st\<lparr>rows := rows2\<rparr>))\<lparr>skipped := [], expired := []\<rparr>))"

text \<open>
  The grouped selectable (lines 244-253) with the window's WHERE, ORDER BY and LIMIT
  (lines 273, 282-285): the sizes, largest first, that at least two rows of the filtered
  table have, one of them with \<open>has_updates\<close>. A comparison of the column with NULL by
  \<open>\<le>\<close> selects nothing. Only the size column of the result is read.
\<close>

definition selectable :: "(inode \<Rightarrow> bool) \<Rightarrow> inode list \<Rightarrow> nat list" where
  "selectable filt_crit rs =
     (let filtered = filter filt_crit rs in
      filter (\<lambda>s. 1 < length (filter (\<lambda>r. isize r = s) filtered)
                 \<and> list_ex (\<lambda>r. isize r = s \<and> has_updates r) filtered)
        (rev (sort (remdups (map isize filtered)))))"

definition window_select ::
  "(inode \<Rightarrow> bool) \<Rightarrow> nat \<Rightarrow> int option \<Rightarrow> inode list \<Rightarrow> nat list" where
  "window_select filt_crit window_size window_start rs =
     take window_size
       (selectable (\<lambda>r. filt_crit r \<and> holds (Size_le window_start) (isize r)) rs)"

text \<open>\<open>__len__\<close>: the number of rows of the grouped selectable.\<close>

definition query_len :: "(inode \<Rightarrow> bool) \<Rightarrow> inode list \<Rightarrow> nat" where
  "query_len filt_crit rs = length (selectable filt_crit rs)"

text \<open>
  The inodes of the window (lines 292-294): the filtered rows whose size is one of the
  window's, ordered by \<open>(-size, ino)\<close>; and \<open>itertools.groupby\<close> on the size.
\<close>

definition window_inodes :: "(inode \<Rightarrow> bool) \<Rightarrow> nat list \<Rightarrow> inode list \<Rightarrow> inode list" where
  "window_inodes filt_crit li rs =
     sort_key (\<lambda>r. (- int (isize r), ino r))
       (filter (\<lambda>r. filt_crit r \<and> isize r \<in> set li) rs)"

function groupby :: "('a \<Rightarrow> 'k) \<Rightarrow> 'a list \<Rightarrow> ('k \<times> 'a list) list" where
  "groupby f [] = []"
| "groupby f (x # xs) =
     (f x, x # takeWhile (\<lambda>y. f y = f x) xs) # groupby f (dropWhile (\<lambda>y. f y = f x) xs)"
  by pat_completeness auto
termination
  by (relation "measure (\<lambda>(f, xs). length xs)")
     (auto simp: length_dropWhile_le less_Suc_eq_le)

record commonality1 =
  c_size :: nat
  inode_count :: nat
  inodes :: "inode list"

text \<open>
  A generator consumed by a \<open>for\<close> loop runs the loop's body at each \<open>yield\<close>: \<open>body\<close> is
  the consumer. The groups yielded so far are returned beside the outcome.
\<close>

fun yield_groups ::
  "(commonality1 \<Rightarrow> state \<Rightarrow> state result) \<Rightarrow> (nat \<times> inode list) list \<Rightarrow> state
     \<Rightarrow> commonality1 list \<times> state result" where
  "yield_groups body [] st = ([], Inr st)"
| "yield_groups body ((s, is) # gs) st =
     (let c = \<lparr>c_size = s, inode_count = length is, inodes = is\<rparr> in
      case body c st of
        Inl err \<Rightarrow> ([c], Inl err)
      | Inr st1 \<Rightarrow> (case yield_groups body gs st1 of (ys, r) \<Rightarrow> (c # ys, r)))"

text \<open>
  How a run of the \<open>while True\<close> loop of \<open>__iter__\<close> ends: by the \<open>return\<close> inside it (or an
  exception), or by leaving the loop, after which lines 302-305 would run.
\<close>

datatype loop_end = Returned "state result" | Left_loop state

lemma window_select_le:
  "s \<in> set (window_select filt_crit n ws rs) \<Longrightarrow> \<exists>b. ws = Some b \<and> int s \<le> b"
  by (cases ws) (auto simp: window_select_def selectable_def Let_def dest!: in_set_takeD)

function window_loop ::
  "(commonality1 \<Rightarrow> state \<Rightarrow> state result) \<Rightarrow> (clause \<Rightarrow> bool option) \<Rightarrow> (inode \<Rightarrow> bool)
     \<Rightarrow> nat \<Rightarrow> int option \<Rightarrow> commonality1 list \<Rightarrow> state \<Rightarrow> commonality1 list \<times> loop_end"
  where
  "window_loop body truth filt_crit window_size window_start ys st =
     (let li = window_select filt_crit window_size window_start (rows st) in
      if li = [] then
        (ys, Returned (clear_updates truth filt_crit window_start 0 st))
      else
        let window_start1 = Some (int (hd li));
            window_end = int (last li);
            inodes_by_size = groupby isize (window_inodes filt_crit li (rows st))
        in case yield_groups body inodes_by_size st of
             (ys1, Inl err) \<Rightarrow> (ys @ ys1, Returned (Inl err))
           | (ys1, Inr st1) \<Rightarrow>
               (case clear_updates truth filt_crit window_start1 window_end st1 of
                  Inl err \<Rightarrow> (ys @ ys1, Returned (Inl err))
                | Inr st2 \<Rightarrow>
                    window_loop body truth filt_crit window_size (Some (window_end - 1))
                      (ys @ ys1) st2))"
  by pat_completeness auto
termination
  apply (relation "measure (\<lambda>(body, truth, filt_crit, window_size, window_start, ys, st).
         case window_start of None \<Rightarrow> 0 | Some b \<Rightarrow> nat (b + 1))")
   apply simp
  subgoal for body truth filt_crit window_size window_start ys st li
    using window_select_le [of "last li" filt_crit window_size window_start "rows st"]
    by (auto split: option.splits)
  done

text \<open>
  \<open>__iter__\<close> (lines 258-305). The initial \<open>window_start\<close> is the largest size of the
  unfiltered table, NULL for an empty table.
\<close>

definition max_size :: "inode list \<Rightarrow> int option" where
  "max_size rs = (if rs = [] then None else Some (int (Max (set (map isize rs)))))"

definition wq_iter ::
  "(commonality1 \<Rightarrow> state \<Rightarrow> state result) \<Rightarrow> (clause \<Rightarrow> bool option) \<Rightarrow> (inode \<Rightarrow> bool)
     \<Rightarrow> nat \<Rightarrow> state \<Rightarrow> commonality1 list \<times> state result" where
  "wq_iter body truth filt_crit window_size st =
     (let st0 = st\<lparr>synchronous := SyncNormal, wal_autocheckpoint := False,
                   checkpointer_alive := False, checkpointer_done := False\<rparr>;
          window_start = max_size (rows st0)
      in case window_loop body truth filt_crit window_size window_start [] st0 of
           (ys, Returned r) \<Rightarrow> (ys, r)
         | (ys, Left_loop st1) \<Rightarrow>
             (ys, Inr ((checkpointer_close st1)\<lparr>synchronous := SyncFull\<rparr>)))"

section \<open>The deduplication pipeline\<close>

record volume =
  vid :: nat
  fs :: nat
  st_dev :: nat
  size_cutoff :: nat
  last_tracked_generation :: nat
  last_tracked_size_cutoff :: "nat option"

type_synonym path = string
type_synonym digest = nat

text \<open>
  The collaborators outside tracking.py, as the answers they give for an inode: the
  modules btrfs, openat, hashing and dedup of this repository, hashlib, \<open>os.fstat\<close> and
  the file's read position. A file object is identified with the inode it was opened for
  (\<open>fd_inodes\<close>). The three path lookups of one inode are three calls (sites 2, 3, 4 for
  the stage they open), so they may answer differently. \<open>volumes\<close> is the Volume table,
  which resolves \<open>inode.vol\<close>.
\<close>

record world =
  lookup_ino_path_one :: "nat \<Rightarrow> inode \<Rightarrow> errno + path"
  fopenat :: "nat \<Rightarrow> inode \<Rightarrow> errno option"
  mini_hash_from_file :: "inode \<Rightarrow> digest"
  fiemap_hash_from_file :: "inode \<Rightarrow> digest"
  fopenat_rw :: "inode \<Rightarrow> errno option"
  fds_in_write_use :: "inode \<Rightarrow> bool"
  sha1_digest :: "inode \<Rightarrow> digest"
  fstat_ino :: "inode \<Rightarrow> nat"
  fstat_dev :: "inode \<Rightarrow> nat"
  tell :: "inode \<Rightarrow> nat"
  cmp_files :: "inode \<Rightarrow> inode \<Rightarrow> bool"
  clone_data :: "inode \<Rightarrow> inode \<Rightarrow> bool"
  volumes :: "nat \<Rightarrow> volume"

definition inode_vol :: "world \<Rightarrow> inode \<Rightarrow> volume" where
  "inode_vol w i = volumes w (vol_id i)"

text \<open>\<open>query.skipped.append(inode)\<close>.\<close>

definition skip :: "inode \<Rightarrow> state \<Rightarrow> state" where
  "skip i st = st\<lparr>skipped := skipped st @ [i]\<rparr>"

text \<open>
  \<open>d[k].append(v)\<close> on a \<open>defaultdict(list)\<close>. The dictionary is kept in the order in which
  its keys were first stored, and \<open>itervalues()\<close> is read in that order.
\<close>

fun dict_append :: "('k \<times> 'v list) list \<Rightarrow> 'k \<Rightarrow> 'v \<Rightarrow> ('k \<times> 'v list) list" where
  "dict_append [] k v = [(k, [v])]"
| "dict_append ((k', vs) # d) k v =
     (if k' = k then (k', vs @ [v]) # d else (k', vs) # dict_append d k v)"

definition itervalues :: "('k \<times> 'v list) list \<Rightarrow> 'v list list" where
  "itervalues d = map snd d"

text \<open>Stage 2 (lines 360-387): the group's inodes by their cheap fingerprint.\<close>

fun by_mini_hash ::
  "world \<Rightarrow> inode list \<Rightarrow> (digest \<times> inode list) list \<Rightarrow> state
     \<Rightarrow> ((digest \<times> inode list) list \<times> state) result" where
  "by_mini_hash w [] by_mh st = Inr (by_mh, st)"
| "by_mini_hash w (i # is) by_mh st =
     (case lookup_ino_path_one w 2 i of
        Inl e \<Rightarrow>
          if e \<noteq> ENOENT then Inl (IOError e, st)
          else by_mini_hash w is by_mh (sess_delete i st)
      | Inr p \<Rightarrow>
          (case fopenat w 2 i of
             Some e \<Rightarrow> Inl (IOError e, st)
           | None \<Rightarrow>
               by_mini_hash w is (dict_append by_mh (mini_hash_from_file w i) i) st))"

text \<open>Stage 3 (lines 395-404): the extent-map fingerprints of one partition.\<close>

fun fiemap_hashes ::
  "world \<Rightarrow> inode list \<Rightarrow> digest list \<Rightarrow> state \<Rightarrow> (digest list \<times> state) result" where
  "fiemap_hashes w [] fies st = Inr (fies, st)"
| "fiemap_hashes w (i # is) fies st =
     (case lookup_ino_path_one w 3 i of
        Inl e \<Rightarrow>
          if e \<noteq> ENOENT then Inl (IOError e, st)
          else fiemap_hashes w is fies (sess_delete i st)
      | Inr p \<Rightarrow>
          (case fopenat w 3 i of
             Some e \<Rightarrow> Inl (IOError e, st)
           | None \<Rightarrow> fiemap_hashes w is (fies @ [fiemap_hash_from_file w i]) st))"

text \<open>
  The open-files budget (lines 416-431). The result says whether the partition goes on
  to be opened.
\<close>

definition ofile_budget :: "int \<Rightarrow> nat \<Rightarrow> inode list \<Rightarrow> state \<Rightarrow> bool \<times> state" where
  "ofile_budget ofile_reserved sz is st =
     (let inode_count = length is;
          ofile_req = 2 * int inode_count + ofile_reserved
      in if ofile_req > ofile_soft st then
           if ofile_req \<le> ofile_hard st then
             (True, (emit [Setrlimit ofile_req (ofile_hard st)] st)\<lparr>ofile_soft := ofile_req\<rparr>)
           else
             (False,
              (emit [Note (Too_many_duplicates inode_count sz (ofile_soft st) (ofile_hard st))]
                 st)\<lparr>skipped := skipped st @ filter has_updates is\<rparr>)
         else (True, st))"

text \<open>Stage 4 (lines 433-472): every file of the partition opened read-write.\<close>

fun open_files ::
  "world \<Rightarrow> inode list \<Rightarrow> inode list \<Rightarrow> state \<Rightarrow> (inode list \<times> state) result" where
  "open_files w [] files st = Inr (files, st)"
| "open_files w (i # is) files st =
     (case lookup_ino_path_one w 4 i of
        Inl e \<Rightarrow>
          if e = ENOENT then open_files w is files (sess_delete i st)
          else Inl (IOError e, st)
      | Inr p \<Rightarrow>
          (case fopenat_rw w i of
             Some e \<Rightarrow>
               if e = ETXTBSY then
                 open_files w is files (skip i (emit [Note (File_busy i)] st))
               else if e = EACCES then
                 open_files w is files (skip i (emit [Note (Access_denied i)] st))
               else if e = ENOENT then
                 open_files w is files (skip i (emit [Note (File_moved i)] st))
               else Inl (IOError e, st)
           | None \<Rightarrow> open_files w is (files @ [i]) (emit [Open_rw i] st)))"

text \<open>
  Stage 5 (lines 480-510), for one open file: write-busy, the digest, the identity
  recheck by \<open>fstat\<close>, the size recheck by the read position.
\<close>

definition hash_file ::
  "world \<Rightarrow> nat \<Rightarrow> inode \<Rightarrow> (digest \<times> inode list) list \<Rightarrow> state
     \<Rightarrow> (digest \<times> inode list) list \<times> state" where
  "hash_file w sz i by_hash st =
     (if fds_in_write_use w i then (by_hash, skip i (emit [Note (File_in_use i)] st))
      else if fstat_ino w i \<noteq> ino i then (by_hash, skip i st)
      else if fstat_dev w i \<noteq> st_dev (inode_vol w i) then (by_hash, skip i st)
      else
        let size1 = tell w i in
        if size1 \<noteq> sz then
          (if size1 < size_cutoff (inode_vol w i) then (by_hash, sess_delete i st)
           else (by_hash, skip i st))
        else (dict_append by_hash (sha1_digest w i) i, st))"

fun hash_files ::
  "world \<Rightarrow> nat \<Rightarrow> inode list \<Rightarrow> (digest \<times> inode list) list \<Rightarrow> state
     \<Rightarrow> (digest \<times> inode list) list \<times> state" where
  "hash_files w sz [] by_hash st = (by_hash, st)"
| "hash_files w sz (i # is) by_hash st =
     (case hash_file w sz i by_hash st of (by_hash1, st1) \<Rightarrow> hash_files w sz is by_hash1 st1)"

text \<open>
  Stage 6 (lines 523-538), the destinations of one digest partition. \<open>assert False\<close>
  raises AssertionError (assertions are on unless the interpreter runs with \<open>-O\<close>).
\<close>

fun share_loop ::
  "world \<Rightarrow> inode \<Rightarrow> inode list \<Rightarrow> inode list \<Rightarrow> state \<Rightarrow> (inode list \<times> state) result" where
  "share_loop w sfile [] dfiles_successful st = Inr (dfiles_successful, st)"
| "share_loop w sfile (dfile # dfiles) dfiles_successful st =
     (if \<not> cmp_files w sfile dfile then
        Inl (Assert_files_differ sfile dfile, emit [Note (Files_differ sfile dfile)] st)
      else if clone_data w sfile dfile then
        share_loop w sfile dfiles (dfiles_successful @ [dfile])
          (emit [Clone_data sfile dfile, Note (Deduplicated sfile dfile)] st)
      else
        share_loop w sfile dfiles dfiles_successful
          (emit [Clone_data sfile dfile, Note (Same_extents sfile dfile)] st))"

text \<open>One digest partition (lines 513-548).\<close>

definition new_event :: "nat \<Rightarrow> nat \<Rightarrow> inode list \<Rightarrow> dedup_event" where
  "new_event f sz files = \<lparr>ev_fs = f, item_size = sz, ev_inodes = map key files\<rparr>"

definition share_fileset :: "world \<Rightarrow> nat \<Rightarrow> nat \<Rightarrow> inode list \<Rightarrow> state \<Rightarrow> state result" where
  "share_fileset w f sz fileset st =
     (if length fileset < 2 then Inr st
      else
        let sfile = hd fileset; dfiles = tl fileset in
        case share_loop w sfile dfiles [] st of
          Inl err \<Rightarrow> Inl err
        | Inr (dfiles_successful, st1) \<Rightarrow>
            if dfiles_successful \<noteq> [] then
              Inr (sess_commit
                     (st1\<lparr>events := events st1 @ [new_event f sz (sfile # dfiles_successful)]\<rparr>))
            else Inr st1)"

fun share_filesets ::
  "world \<Rightarrow> nat \<Rightarrow> nat \<Rightarrow> inode list list \<Rightarrow> state \<Rightarrow> state result" where
  "share_filesets w f sz [] st = Inr st"
| "share_filesets w f sz (fileset # rest) st =
     (case share_fileset w f sz fileset st of
        Inl err \<Rightarrow> Inl err
      | Inr st1 \<Rightarrow> share_filesets w f sz rest st1)"

text \<open>Lines 410-548: budget, open, hash, share, for one mini-hash partition.\<close>

definition open_and_share ::
  "world \<Rightarrow> int \<Rightarrow> nat \<Rightarrow> nat \<Rightarrow> inode list \<Rightarrow> state \<Rightarrow> state result" where
  "open_and_share w ofile_reserved f sz is st =
     (case ofile_budget ofile_reserved sz is st of
        (False, st1) \<Rightarrow> Inr st1
      | (True, st1) \<Rightarrow>
          (case open_files w is [] st1 of
             Inl err \<Rightarrow> Inl err
           | Inr (files, st2) \<Rightarrow>
               (case hash_files w sz files [] st2 of
                  (by_hash, st3) \<Rightarrow> share_filesets w f sz (itervalues by_hash) st3)))"

text \<open>Lines 389-548, for one value of \<open>by_mh\<close>.\<close>

definition dedup_partition ::
  "world \<Rightarrow> int \<Rightarrow> nat \<Rightarrow> nat \<Rightarrow> inode list \<Rightarrow> state \<Rightarrow> state result" where
  "dedup_partition w ofile_reserved f sz is st =
     (let inode_count = length is in
      if inode_count < 2 then Inr st
      else
        let st1 = st\<lparr>space_gain2 := space_gain2 st + int sz * (int inode_count - 1)\<rparr> in
        case fiemap_hashes w is [] st1 of
          Inl err \<Rightarrow> Inl err
        | Inr (fies, st2) \<Rightarrow>
            if length (remdups fies) < 2 then Inr st2
            else
              open_and_share w ofile_reserved f sz is
                (st2\<lparr>space_gain3 := space_gain3 st2 + int sz * (int inode_count - 1)\<rparr>))"

fun dedup_partitions ::
  "world \<Rightarrow> int \<Rightarrow> nat \<Rightarrow> nat \<Rightarrow> inode list list \<Rightarrow> state \<Rightarrow> state result" where
  "dedup_partitions w ofile_reserved f sz [] st = Inr st"
| "dedup_partitions w ofile_reserved f sz (is # rest) st =
     (case dedup_partition w ofile_reserved f sz is st of
        Inl err \<Rightarrow> Inl err
      | Inr st1 \<Rightarrow> dedup_partitions w ofile_reserved f sz rest st1)"

text \<open>The body of the \<open>for comm1 in query\<close> loop (lines 353-548).\<close>

definition dedup_group :: "world \<Rightarrow> int \<Rightarrow> nat \<Rightarrow> commonality1 \<Rightarrow> state \<Rightarrow> state result" where
  "dedup_group w ofile_reserved f comm1 st =
     (let sz = c_size comm1;
          st1 = st\<lparr>space_gain1 := space_gain1 st + int sz * (int (inode_count comm1) - 1)\<rparr>
      in case by_mini_hash w (inodes comm1) [] st1 of
           Inl err \<Rightarrow> Inl err
         | Inr (by_mh, st2) \<Rightarrow> dedup_partitions w ofile_reserved f sz (itervalues by_mh) st2)"

definition WINDOW_SIZE :: nat where
  "WINDOW_SIZE = 200"

text \<open>
  \<open>dedup_tracked1\<close> (lines 345-553). The open-files limits that \<open>getrlimit\<close> reads are the
  state's \<open>ofile_soft\<close> and \<open>ofile_hard\<close>.
\<close>

definition dedup_tracked1 ::
  "world \<Rightarrow> (clause \<Rightarrow> bool option) \<Rightarrow> int \<Rightarrow> (inode \<Rightarrow> bool) \<Rightarrow> nat \<Rightarrow> state \<Rightarrow> state result"
  where
  "dedup_tracked1 w truth ofile_reserved filt_crit f st =
     (case wq_iter (dedup_group w ofile_reserved f) truth filt_crit WINDOW_SIZE
             (st\<lparr>space_gain1 := 0, space_gain2 := 0, space_gain3 := 0\<rparr>) of
        (ys, Inl err) \<Rightarrow> Inl err
      | (ys, Inr st1) \<Rightarrow>
          Inr (emit [Note (Space_gain (space_gain1 st1) (space_gain2 st1) (space_gain3 st1))]
                 st1))"

text \<open>\<open>dedup_tracked\<close> (lines 324-342).\<close>

definition ofile_reserved_for :: "volume list \<Rightarrow> int" where
  "ofile_reserved_for volset = 7 + int (length volset)"

definition after_assert ::
  "world \<Rightarrow> (clause \<Rightarrow> bool option) \<Rightarrow> volume list \<Rightarrow> nat \<Rightarrow> state \<Rightarrow> state result" where
  "after_assert w truth volset f st =
     (let vol_ids = map vid volset;
          ofile_reserved = ofile_reserved_for volset;
          inode_filt = (\<lambda>r. vol_id r \<in> set vol_ids);
          le = query_len inode_filt (rows st);
          r = (if le \<noteq> 0
               then dedup_tracked1 w truth ofile_reserved inode_filt f st
               else Inr st)
      in case r of Inl err \<Rightarrow> Inl err | Inr st1 \<Rightarrow> Inr (emit [Commit] st1))"

definition dedup_tracked ::
  "world \<Rightarrow> (clause \<Rightarrow> bool option) \<Rightarrow> volume list \<Rightarrow> state \<Rightarrow> state result" where
  "dedup_tracked w truth volset st =
     (case volset of
        [] \<Rightarrow> Inl (IndexError, st)
      | vol0 # _ \<Rightarrow>
          let f = fs vol0 in
          if \<not> list_all (\<lambda>vol. fs vol = f) volset then Inl (Assert_same_fs, st)
          else after_assert w truth volset f st)"

section \<open>The Scanner\<close>

text \<open>
  One item of a tree-search batch: the search header and, for an inode item, the
  generation, size and mode of its payload.
\<close>

record search_item =
  sh_objectid :: nat
  sh_type :: nat
  sh_offset :: nat
  sh_transid :: nat
  inode_generation :: nat
  inode_size :: nat
  inode_mode :: nat

record search_key =
  min_objectid :: nat
  min_type :: nat
  min_offset :: nat
  min_transid :: nat

text \<open>The key type of inode items in the filesystem's tree, and \<open>stat.S_ISREG\<close>.\<close>

definition BTRFS_INODE_ITEM_KEY :: nat where
  "BTRFS_INODE_ITEM_KEY = 1"

definition S_ISREG :: "nat \<Rightarrow> bool" where
  "S_ISREG mode = (mode div 4096 mod 16 = 8)"

datatype scan_effect =
    Notify_skipping nat
  | Notify_scanning nat nat nat
  | Notify_lookup_error nat errno
  | Update_path string
  | Update_desc nat nat nat nat
  | Scan_commit

text \<open>
  What the scan reads from outside: the volume's top generation, the tree-search ioctl
  (at most 4096 items for a key, or an IOError), the path lookup of an inode number and
  the decoding of a path under \<open>FS_ENCODING\<close> (\<open>None\<close> for a ValueError).
\<close>

record scan_world =
  get_root_generation :: nat
  tree_search :: "search_key \<Rightarrow> errno + search_item list"
  lookup_path :: "nat \<Rightarrow> errno + path"
  decode :: "path \<Rightarrow> string option"

record scan_state =
  inode_rows :: "inode list"
  vol :: volume
  scan_log :: "scan_effect list"

text \<open>
  Modelled from the spec: \<open>get_or_create\<close> of the model module, which is not among the
  sources. The spec's Scanner upserts \<open>(vol, ino)\<close>: the row with that key if there is
  one, a new row otherwise; the flag says a row was created.
\<close>

definition get_or_create :: "inode list \<Rightarrow> nat \<Rightarrow> nat \<Rightarrow> inode list \<times> bool" where
  "get_or_create rs v n =
     (if list_ex (\<lambda>r. key r = (v, n)) rs then (rs, False)
      else (rs @ [\<lparr>vol_id = v, ino = n, isize = 0, has_updates = False\<rparr>], True))"

text \<open>\<open>inode.size = size; inode.has_updates = True\<close> on the row with that key.\<close>

definition set_size_updated :: "inode list \<Rightarrow> nat \<Rightarrow> nat \<Rightarrow> nat \<Rightarrow> inode list" where
  "set_size_updated rs v n sz =
     map (\<lambda>r. if key r = (v, n) then r\<lparr>isize := sz, has_updates := True\<rparr> else r) rs"

text \<open>\<open>sess.expunge\<close> of a pending row and \<open>sess.delete\<close> of a stored one.\<close>

definition expunge :: "inode list \<Rightarrow> nat \<Rightarrow> nat \<Rightarrow> inode list" where
  "expunge rs v n = filter (\<lambda>r. key r \<noteq> (v, n)) rs"

definition delete_row :: "inode list \<Rightarrow> nat \<Rightarrow> nat \<Rightarrow> inode list" where
  "delete_row rs v n = filter (\<lambda>r. key r \<noteq> (v, n)) rs"

text \<open>
  The filters an item passes before its inode is looked at (lines 138-157): an inode
  item, not below the cutoff, new enough, a regular file. \<open>vol.last_tracked_size_cutoff\<close>
  is tested for truth on line 149, so \<open>None\<close> and \<open>0\<close> both take the \<open>else\<close> branch.
\<close>

definition item_wanted :: "volume \<Rightarrow> nat \<Rightarrow> search_item \<Rightarrow> bool" where
  "item_wanted v min_generation sh =
     (sh_type sh = BTRFS_INODE_ITEM_KEY
      \<and> \<not> inode_size sh < size_cutoff v
      \<and> \<not> (case last_tracked_size_cutoff v of
               None \<Rightarrow> inode_generation sh < min_generation
             | Some c \<Rightarrow>
                 if c \<noteq> 0 \<and> inode_size sh \<ge> c
                 then inode_generation sh \<le> last_tracked_generation v
                 else inode_generation sh < min_generation)
      \<and> S_ISREG (inode_mode sh))"

text \<open>The body of the loop over a batch's items (lines 133-182).\<close>

definition scan_item :: "scan_world \<Rightarrow> nat \<Rightarrow> search_item \<Rightarrow> scan_state \<Rightarrow> scan_state" where
  "scan_item w min_generation sh st =
     (let v = vol st in
      if \<not> item_wanted v min_generation sh then st
      else
        let n = sh_objectid sh;
            sz = inode_size sh;
            (rs1, inode_created) = get_or_create (inode_rows st) (vid v) n;
            rs2 = set_size_updated rs1 (vid v) n sz
        in case lookup_path w n of
             Inl e \<Rightarrow>
               st\<lparr>inode_rows := (if inode_created then expunge rs2 (vid v) n
                                  else delete_row rs2 (vid v) n),
                  scan_log := scan_log st @ [Notify_lookup_error n e]\<rparr>
           | Inr p \<Rightarrow>
               (case decode w p of
                  None \<Rightarrow> st\<lparr>inode_rows := rs2\<rparr>
                | Some p' \<Rightarrow>
                    st\<lparr>inode_rows := rs2,
                       scan_log := scan_log st @
                         [Update_path p',
                          Update_desc n (sh_transid sh) (inode_generation sh) sz]\<rparr>))"

fun scan_items :: "scan_world \<Rightarrow> nat \<Rightarrow> search_item list \<Rightarrow> scan_state \<Rightarrow> scan_state" where
  "scan_items w min_generation [] st = st"
| "scan_items w min_generation (sh # shs) st =
     scan_items w min_generation shs (scan_item w min_generation sh st)"

text \<open>
  Lines 183-187: the search key moves to the last item seen, one offset further. The
  key's fields are unsigned 64-bit fields of a C struct; the item's numbers are read
  from such fields, and \<open>sk.min_offset += 1\<close> on the largest offset is refused with
  OverflowError.
\<close>

definition u64_max :: nat where
  "u64_max = 2 ^ 64 - 1"

definition next_key :: "search_key \<Rightarrow> search_item \<Rightarrow> search_key" where
  "next_key sk sh =
     sk\<lparr>min_objectid := sh_objectid sh, min_type := sh_type sh,
        min_offset := sh_offset sh + 1\<rparr>"

text \<open>
  The \<open>while True\<close> loop over batches (lines 119-187). Whether it ends is up to the
  kernel's answers, so not returning is the value \<open>None\<close>.
\<close>

partial_function (option) search_loop ::
  "scan_world \<Rightarrow> nat \<Rightarrow> search_key \<Rightarrow> scan_state
     \<Rightarrow> ((error \<times> scan_state) + scan_state) option" where
  "search_loop w min_generation sk st =
     (case tree_search w sk of
        Inl e \<Rightarrow> Some (Inl (IOError e, st))
      | Inr items \<Rightarrow>
          if items = [] then Some (Inr st)
          else
            let st1 = scan_items w min_generation items st;
                sh = last items
            in if sh_offset sh + 1 > u64_max then Some (Inl (OverflowError, st1))
               else search_loop w min_generation (next_key sk sh) st1)"

declare search_loop.simps [code]

text \<open>Lines 80-84: the lower generation bound of the scan.\<close>

definition min_generation_of :: "volume \<Rightarrow> nat" where
  "min_generation_of v =
     (case last_tracked_size_cutoff v of
        None \<Rightarrow> 0
      | Some c \<Rightarrow> if c \<le> size_cutoff v then last_tracked_generation v + 1 else 0)"

text \<open>\<open>track_updated_files\<close> (lines 76-191).\<close>

definition track_updated_files ::
  "scan_world \<Rightarrow> scan_state \<Rightarrow> ((error \<times> scan_state) + scan_state) option" where
  "track_updated_files w st =
     (let v = vol st;
          top_generation = get_root_generation w;
          min_generation = min_generation_of v
      in if min_generation > top_generation then
           Some (Inr (st\<lparr>scan_log := scan_log st @
                          [Notify_skipping top_generation, Scan_commit]\<rparr>))
         else
           let st0 = st\<lparr>scan_log := scan_log st @
                          [Notify_scanning min_generation top_generation (size_cutoff v)]\<rparr>;
               sk = \<lparr>min_objectid = 0, min_type = 0, min_offset = 0,
                     min_transid = min_generation\<rparr>
           in case search_loop w min_generation sk st0 of
                None \<Rightarrow> None
              | Some (Inl err) \<Rightarrow> Some (Inl err)
              | Some (Inr st1) \<Rightarrow>
                  Some (Inr (st1\<lparr>vol := (vol st1)\<lparr>last_tracked_generation := top_generation,
                                   last_tracked_size_cutoff := Some (size_cutoff (vol st1))\<rparr>,
                                 scan_log := scan_log st1 @ [Scan_commit]\<rparr>)))"
section \<open>Notions used in the statements\<close>

text \<open>Every group yielded so far is larger than the next window's bound.\<close>

definition all_above :: "int option \<Rightarrow> commonality1 list \<Rightarrow> bool" where
  "all_above ws ys = (case ws of None \<Rightarrow> ys = [] | Some b \<Rightarrow> list_all (\<lambda>y. b < int (c_size y)) ys)"

text \<open>The effects of stage 6 on destinations that all compare equal to the source.\<close>

definition share_effects :: "world \<Rightarrow> inode \<Rightarrow> inode list \<Rightarrow> effect list" where
  "share_effects w s ds =
     concat (map (\<lambda>d. [Clone_data s d,
                        Note (if clone_data w s d then Deduplicated s d else Same_extents s d)]) ds)"

text \<open>An inode that stage 5 lets through: not write-busy, identity and size as recorded.\<close>

definition rechecked :: "world \<Rightarrow> nat \<Rightarrow> inode \<Rightarrow> bool" where
  "rechecked w sz i =
     (\<not> fds_in_write_use w i \<and> fstat_ino w i = ino i
      \<and> fstat_dev w i = st_dev (inode_vol w i) \<and> tell w i = sz)"

text \<open>The state a run ends in, whether it returns or raises.\<close>

definition state_of :: "state result \<Rightarrow> state" where
  "state_of r = (case r of Inl (e, st) \<Rightarrow> st | Inr st \<Rightarrow> st)"

text \<open>
  The events appended between two states name only inodes whose keys are in \<open>K\<close>.
\<close>

definition events_within :: "state \<Rightarrow> state \<Rightarrow> (nat \<times> nat) set \<Rightarrow> bool" where
  "events_within st st1 K =
     (\<exists>new. events st1 = events st @ new \<and> list_all (\<lambda>ev. set (ev_inodes ev) \<subseteq> K) new)"

text \<open>A run that raises the given error.\<close>

definition raises :: "'a result \<Rightarrow> error \<Rightarrow> bool" where
  "raises r e = (case r of Inl (e', st) \<Rightarrow> e' = e | Inr x \<Rightarrow> False)"

text \<open>How the window loop ended.\<close>

definition end_raises :: "loop_end \<Rightarrow> error \<Rightarrow> bool" where
  "end_raises l e = (case l of Returned r \<Rightarrow> raises r e | Left_loop st \<Rightarrow> False)"

definition left_loop :: "loop_end \<Rightarrow> bool" where
  "left_loop l = (case l of Returned r \<Rightarrow> False | Left_loop st \<Rightarrow> True)"

text \<open>
  The claim's words for the range update of \<open>clear_updates\<close>: \<open>has_updates\<close> becomes false
  exactly for the selected rows whose size \<open>s\<close> has \<open>window_end \<le> s \<le> window_start\<close>.
\<close>

definition spec_clear_updates :: "(inode \<Rightarrow> bool) \<Rightarrow> int \<Rightarrow> int \<Rightarrow> inode list \<Rightarrow> inode list" where
  "spec_clear_updates filt_crit window_start window_end rs =
     map (\<lambda>r. if filt_crit r \<and> window_end \<le> int (isize r) \<and> int (isize r) \<le> window_start
               then r\<lparr>has_updates := False\<rparr> else r) rs"

fun is_clear_updates :: "effect \<Rightarrow> bool" where
  "is_clear_updates (Clear_updates ws we) = True"
| "is_clear_updates e = False"

text \<open>
  The kernel ends the iteration after \<open>n\<close> batches: searched from the key \<open>sk\<close> it answers
  \<open>n\<close> times with a batch that is not empty and whose last offset is below the largest,
  each time from the key the code moves to, and then with an empty batch.
\<close>

fun scan_ends :: "scan_world \<Rightarrow> search_key \<Rightarrow> nat \<Rightarrow> bool" where
  "scan_ends w sk 0 = (tree_search w sk = Inr [])"
| "scan_ends w sk (Suc n) =
     (case tree_search w sk of
        Inl e \<Rightarrow> False
      | Inr items \<Rightarrow>
          items \<noteq> [] \<and> sh_offset (last items) < u64_max
          \<and> scan_ends w (next_key sk (last items)) n)"

text \<open>The scan state a run of the scanner ends in, whether it returns or raises.\<close>

definition scan_state_of :: "(error \<times> scan_state) + scan_state \<Rightarrow> scan_state" where
  "scan_state_of r = (case r of Inl (e, st) \<Rightarrow> st | Inr st \<Rightarrow> st)"

subsection \<open>Sample inputs\<close>

definition an_inode :: "nat \<Rightarrow> nat \<Rightarrow> nat \<Rightarrow> bool \<Rightarrow> inode" where
  "an_inode v n s u = \<lparr>vol_id = v, ino = n, isize = s, has_updates = u\<rparr>"

definition a_volume :: "nat \<Rightarrow> nat \<Rightarrow> volume" where
  "a_volume v f = \<lparr>vid = v, fs = f, st_dev = 5, size_cutoff = 16,
                   last_tracked_generation = 0, last_tracked_size_cutoff = None\<rparr>"

definition a_session :: "inode list \<Rightarrow> int \<Rightarrow> int \<Rightarrow> state" where
  "a_session rs soft hard =
     \<lparr>rows = rs, skipped = [], expire_on_commit = True, expired = [], events = [],
      synchronous = SyncFull,
      wal_autocheckpoint = True, checkpointer_alive = False, checkpointer_done = False,
      ofile_soft = soft, ofile_hard = hard,
      space_gain1 = 0, space_gain2 = 0, space_gain3 = 0, log = []\<rparr>"

definition quiet_world :: world where
  "quiet_world =
     \<lparr>lookup_ino_path_one = (\<lambda>site i. Inr ''f''),
      fopenat = (\<lambda>site i. None),
      mini_hash_from_file = (\<lambda>i. 7),
      fiemap_hash_from_file = ino,
      fopenat_rw = (\<lambda>i. None),
      fds_in_write_use = (\<lambda>i. False),
      sha1_digest = (\<lambda>i. 9),
      fstat_ino = ino,
      fstat_dev = (\<lambda>i. 5),
      tell = isize,
      cmp_files = (\<lambda>s d. True),
      clone_data = (\<lambda>s d. True),
      volumes = (\<lambda>v. a_volume v 1)\<rparr>"

definition file_no :: "nat \<Rightarrow> inode" where
  "file_no n = an_inode 1 n 50 True"

definition three_files :: "inode list" where
  "three_files = [file_no 1, file_no 2, file_no 3]"

text \<open>
  Worlds that differ from the quiet one in one answer: the third file does not compare
  equal to the source; the third file already shares its extents; the third file has
  shrunk to 4 bytes, below the cutoff 16.
\<close>

definition collision_world :: world where
  "collision_world = quiet_world\<lparr>cmp_files := (\<lambda>s d. ino d \<noteq> 3)\<rparr>"

definition shared_world :: world where
  "shared_world = quiet_world\<lparr>clone_data := (\<lambda>s d. ino d \<noteq> 3)\<rparr>"

definition shrunk_world :: world where
  "shrunk_world = quiet_world\<lparr>tell := (\<lambda>i. if ino i = 3 then 4 else isize i)\<rparr>"

definition four_sizes :: "inode list" where
  "four_sizes = [an_inode 1 1 100 True, an_inode 1 2 50 True, an_inode 1 3 50 True,
                 an_inode 1 4 10 True]"

definition in_volume_1 :: "inode \<Rightarrow> bool" where
  "in_volume_1 r = (vol_id r \<in> set [1])"

definition always :: "bool \<Rightarrow> clause \<Rightarrow> bool option" where
  "always b c = Some b"

definition never_defined :: "clause \<Rightarrow> bool option" where
  "never_defined c = None"

text \<open>A scan of volume 1 (cutoff 16, last scanned at cutoff 16) that meets one regular file.\<close>

definition a_scan :: "inode list \<Rightarrow> volume \<Rightarrow> scan_state" where
  "a_scan rs v = \<lparr>inode_rows = rs, vol = v, scan_log = []\<rparr>"

definition item_257 :: search_item where
  "item_257 = \<lparr>sh_objectid = 257, sh_type = 1, sh_offset = 0, sh_transid = 9,
               inode_generation = 9, inode_size = 4096, inode_mode = 33188\<rparr>"

text \<open>A kernel that answers the first search with one inode item and every later one with none.\<close>

definition one_item_world :: "(path \<Rightarrow> string option) \<Rightarrow> scan_world" where
  "one_item_world d =
     \<lparr>get_root_generation = 9,
      tree_search = (\<lambda>sk. Inr (if min_objectid sk = 0 then [item_257] else [])),
      lookup_path = (\<lambda>n. Inr ''f''),
      decode = d\<rparr>"

text \<open>A kernel that refuses the search, and one whose only item has the largest offset.\<close>

definition unreadable_world :: scan_world where
  "unreadable_world = (one_item_world Some)\<lparr>tree_search := (\<lambda>sk. Inl EIO)\<rparr>"

definition last_offset_world :: scan_world where
  "last_offset_world =
     (one_item_world Some)\<lparr>tree_search := (\<lambda>sk. Inr [item_257\<lparr>sh_offset := u64_max\<rparr>])\<rparr>"

definition undecodable :: "path \<Rightarrow> string option" where
  "undecodable p = None"

definition scanned_volume :: "nat \<Rightarrow> volume" where
  "scanned_volume g = \<lparr>vid = 1, fs = 1, st_dev = 5, size_cutoff = 16,
                         last_tracked_generation = g, last_tracked_size_cutoff = Some 16\<rparr>"

definition after_scan :: "scan_effect list \<Rightarrow> scan_state" where
  "after_scan l =
     \<lparr>inode_rows = [an_inode 1 257 4096 True],
      vol = (scanned_volume 9),
      scan_log = l\<rparr>"

section \<open>Properties of the WindowedQuery\<close>

subsection \<open>Descending order of the yielded groups\<close>

lemma groupby_keys: "fst ` set (groupby f xs) \<subseteq> f ` set xs"
proof (induction f xs rule: groupby.induct)
  case (1 f)
  then show ?case by simp
next
  case (2 f x xs)
  have "set (dropWhile (\<lambda>y. f y = f x) xs) \<subseteq> set xs"
    by (simp add: set_dropWhileD subsetI)
  with 2 show ?case by auto
qed

lemma dropWhile_below:
  fixes f :: "'a \<Rightarrow> nat"
  assumes "sorted_wrt (\<lambda>a b. f b \<le> f a) (x # xs)"
  shows "\<forall>y \<in> set (dropWhile (\<lambda>y. f y = f x) xs). f y < f x"
  using assms
proof (induction xs)
  case Nil
  then show ?case by simp
next
  case (Cons a xs)
  show ?case
  proof (cases "f a = f x")
    case True
    with Cons show ?thesis by auto
  next
    case False
    with Cons.prems have "f a < f x" by auto
    moreover from Cons.prems have "\<forall>y\<in>set xs. f y \<le> f a" by auto
    ultimately show ?thesis using False by fastforce
  qed
qed

lemma sorted_wrt_dropWhile: "sorted_wrt R xs \<Longrightarrow> sorted_wrt R (dropWhile P xs)"
  by (induction xs) (auto dest: set_dropWhileD)

lemma groupby_decreasing:
  fixes f :: "'a \<Rightarrow> nat"
  shows "sorted_wrt (\<lambda>a b. f b \<le> f a) xs \<Longrightarrow> sorted_wrt (>) (map fst (groupby f xs))"
proof (induction f xs rule: groupby.induct)
  case (1 f)
  then show ?case by simp
next
  case (2 f x xs)
  let ?d = "dropWhile (\<lambda>y. f y = f x) xs"
  from "2.prems" have "sorted_wrt (\<lambda>a b. f b \<le> f a) xs" by simp
  then have "sorted_wrt (\<lambda>a b. f b \<le> f a) ?d" by (rule sorted_wrt_dropWhile)
  then have IH: "sorted_wrt (>) (map fst (groupby f ?d))" by (rule "2.IH")
  have "\<forall>k \<in> fst ` set (groupby f ?d). k < f x"
    using groupby_keys [of f ?d] dropWhile_below [OF "2.prems"] by auto
  with IH show ?case by auto
qed

lemma window_inodes_sorted:
  "sorted_wrt (\<lambda>a b. isize b \<le> isize a) (window_inodes filt_crit li rs)"
proof -
  let ?k = "\<lambda>r::inode. (- int (isize r), ino r)"
  have "sorted (map ?k (window_inodes filt_crit li rs))"
    unfolding window_inodes_def by (rule sorted_sort_key)
  then have "sorted_wrt (\<lambda>a b. ?k a \<le> ?k b) (window_inodes filt_crit li rs)"
    by (simp add: sorted_map)
  then show ?thesis
    by (rule sorted_wrt_mono_rel [rotated]) (auto simp: less_eq_prod_def)
qed

lemma window_inodes_sizes: "isize ` set (window_inodes filt_crit li rs) \<subseteq> set li"
  by (auto simp: window_inodes_def)

lemma yield_groups_prefix:
  "\<exists>k. map c_size (fst (yield_groups body gs st)) = take k (map fst gs)"
proof (induction gs arbitrary: st)
  case Nil
  then show ?case by simp
next
  case (Cons g gs)
  obtain s "is" where g: "g = (s, is)" by (cases g)
  show ?case
  proof (cases "body \<lparr>c_size = s, inode_count = length is, inodes = is\<rparr> st")
    case (Inl e)
    then have "map c_size (fst (yield_groups body (g # gs) st)) = take 1 (map fst (g # gs))"
      by (simp add: g)
    then show ?thesis by blast
  next
    case (Inr st1)
    from Cons.IH [of st1] obtain k where
      "map c_size (fst (yield_groups body gs st1)) = take k (map fst gs)" by blast
    with Inr have "map c_size (fst (yield_groups body (g # gs) st)) = take (Suc k) (map fst (g # gs))"
      by (auto simp: g split: prod.splits)
    then show ?thesis by blast
  qed
qed

lemma selectable_desc: "sorted_wrt (>) (selectable filt_crit rs)"
proof -
  have "sorted_wrt (<) (sort (remdups (map isize (filter filt_crit rs))))"
    by (simp add: strict_sorted_iff)
  then have "sorted_wrt (>) (rev (sort (remdups (map isize (filter filt_crit rs)))))"
    by (simp add: sorted_wrt_rev)
  then show ?thesis
    unfolding selectable_def Let_def by (rule sorted_wrt_filter)
qed

lemma window_select_desc: "sorted_wrt (>) (window_select filt_crit n ws rs)"
  unfolding window_select_def by (rule sorted_wrt_take) (rule selectable_desc)

lemma last_least:
  fixes xs :: "nat list"
  shows "sorted_wrt (>) xs \<Longrightarrow> x \<in> set xs \<Longrightarrow> last xs \<le> x"
  by (induction xs) (auto simp: less_imp_le)

lemma yielded_sizes:
  assumes ys1: "ys1 = fst (yield_groups body (groupby isize (window_inodes filt_crit li rs)) st)"
  shows "sorted_wrt (>) (map c_size ys1)" and "c_size ` set ys1 \<subseteq> set li"
proof -
  let ?gs = "groupby isize (window_inodes filt_crit li rs)"
  obtain k where k: "map c_size ys1 = take k (map fst ?gs)"
    unfolding ys1 using yield_groups_prefix by blast
  have "sorted_wrt (>) (map fst ?gs)"
    by (rule groupby_decreasing) (rule window_inodes_sorted)
  then show "sorted_wrt (>) (map c_size ys1)"
    unfolding k by (rule sorted_wrt_take)
  have "set (map c_size ys1) \<subseteq> set (map fst ?gs)"
    unfolding k by (rule set_take_subset)
  also have "\<dots> \<subseteq> isize ` set (window_inodes filt_crit li rs)"
    using groupby_keys [of isize "window_inodes filt_crit li rs"] by simp
  also have "\<dots> \<subseteq> set li" by (rule window_inodes_sizes)
  finally show "c_size ` set ys1 \<subseteq> set li" by simp
qed

lemma window_loop_desc:
  "sorted_wrt (>) (map c_size ys) \<Longrightarrow> all_above window_start ys \<Longrightarrow>
   sorted_wrt (>) (map c_size (fst (window_loop body truth filt_crit window_size window_start ys st)))"
proof (induction body truth filt_crit window_size window_start ys st rule: window_loop.induct)
  case (1 body truth filt_crit window_size window_start ys st)
  let ?li = "window_select filt_crit window_size window_start (rows st)"
  show ?case
  proof (cases "?li = []")
    case True
    with "1.prems" show ?thesis by (subst window_loop.simps) simp
  next
    case False
    let ?yg = "yield_groups body (groupby isize (window_inodes filt_crit ?li (rows st))) st"
    obtain ys1 r where yg: "?yg = (ys1, r)" by (cases ?yg)
    then have ys1: "ys1 = fst ?yg" by simp
    have s1: "sorted_wrt (>) (map c_size ys1)" and sub: "c_size ` set ys1 \<subseteq> set ?li"
      using yielded_sizes [OF ys1] by auto
    from False have "last ?li \<in> set ?li" by simp
    then obtain b where b: "window_start = Some b" "int (last ?li) \<le> b"
      using window_select_le by blast
    have le_b: "\<forall>y\<in>set ys1. int (c_size y) \<le> b"
      using sub window_select_le [of _ filt_crit window_size window_start "rows st"] b by fastforce
    have ge_last: "\<forall>y\<in>set ys1. last ?li \<le> c_size y"
      using sub last_least [OF window_select_desc, of _ filt_crit window_size window_start "rows st"]
      by blast
    have sorted_app: "sorted_wrt (>) (map c_size (ys @ ys1))"
      using "1.prems" s1 le_b b by (fastforce simp: sorted_wrt_append all_above_def list_all_iff)
    have above_app: "all_above (Some (int (last ?li) - 1)) (ys @ ys1)"
      using "1.prems" ge_last b by (fastforce simp: all_above_def list_all_iff)
    show ?thesis
    proof (cases r)
      case (Inl err)
      with False sorted_app yg show ?thesis
        by (subst window_loop.simps) (simp add: Let_def)
    next
      case (Inr st1)
      note r = this
      show ?thesis
      proof (cases "clear_updates truth filt_crit (Some (int (hd ?li))) (int (last ?li)) st1")
        case (Inl err)
        with False yg r sorted_app show ?thesis
          by (subst window_loop.simps) (simp add: Let_def)
      next
        case (Inr st2)
        have "sorted_wrt (>) (map c_size (fst (window_loop body truth filt_crit window_size
                 (Some (int (last ?li) - 1)) (ys @ ys1) st2)))"
          using "1.IH" [OF refl False refl refl refl yg [unfolded r, symmetric] refl Inr
              sorted_app above_app] .
        with False yg r Inr show ?thesis
          by (subst window_loop.simps) (simp add: Let_def)
      qed
    qed
  qed
qed

text \<open>
  Claim C9. In every pass the sizes of the groups that the WindowedQuery iteration yields
  are strictly decreasing from each group to the next, within a window and from one
  window to the next, whatever the consumer does with each group and also when the pass
  is cut short by an error.
\<close>

theorem yielded_sizes_strictly_decreasing:
  "sorted_wrt (>) (map c_size (fst (wq_iter body truth filt_crit window_size st)))"
proof -
  let ?st0 = "st\<lparr>synchronous := SyncNormal, wal_autocheckpoint := False,
                   checkpointer_alive := False, checkpointer_done := False\<rparr>"
  have "sorted_wrt (>) (map c_size (fst (window_loop body truth filt_crit window_size
          (max_size (rows ?st0)) [] ?st0)))"
    by (rule window_loop_desc) (simp_all add: all_above_def split: option.splits)
  then show ?thesis
    by (auto simp: wq_iter_def Let_def split: prod.splits loop_end.splits)
qed
section \<open>Properties of the pipeline\<close>

subsection \<open>Stage 6: comparing and sharing\<close>

lemma state_of_simps [simp]:
  "state_of (Inl (e, st)) = st" "state_of (Inr st) = st"
  by (simp_all add: state_of_def)

lemma emit_emit: "emit b (emit a st) = emit (a @ b) st"
  by (simp add: emit_def)

lemma emit_Nil: "emit [] st = st"
  by (simp add: emit_def)

lemma share_loop_append:
  "share_loop w s before acc st = Inr (acc1, st1) \<Longrightarrow>
   share_loop w s (before @ rest) acc st = share_loop w s rest acc1 st1"
  by (induction before arbitrary: acc st) (auto split: if_splits)

lemma share_loop_all_equal:
  "\<forall>d\<in>set ds. cmp_files w s d \<Longrightarrow>
   share_loop w s ds acc st =
     Inr (acc @ filter (clone_data w s) ds, emit (share_effects w s ds) st)"
proof (induction ds arbitrary: acc st)
  case Nil
  then show ?case by (simp add: share_effects_def emit_Nil)
next
  case (Cons d ds)
  then have all: "\<forall>x\<in>set ds. cmp_files w s x" and d: "cmp_files w s d" by simp_all
  show ?case
    using Cons.IH [OF all] d by (simp add: share_effects_def emit_emit)
qed

lemma share_loop_differ:
  assumes "\<forall>d\<in>set before. cmp_files w s d" and "\<not> cmp_files w s dfile"
  shows "share_loop w s (before @ dfile # after) acc st =
           Inl (Assert_files_differ s dfile,
                emit (share_effects w s before @ [Note (Files_differ s dfile)]) st)"
  using share_loop_append [OF share_loop_all_equal [OF assms(1), of acc st], of "dfile # after"]
    assms(2)
  by (simp add: emit_emit)

lemma share_fileset_all_equal:
  assumes "\<forall>d\<in>set dfiles. cmp_files w sfile d"
  shows "share_fileset w f sz (sfile # dfiles) st =
     Inr (if filter (clone_data w sfile) dfiles \<noteq> []
          then sess_commit
                 ((emit (share_effects w sfile dfiles) st)
                    \<lparr>events := events st @
                       [new_event f sz (sfile # filter (clone_data w sfile) dfiles)]\<rparr>)
          else emit (share_effects w sfile dfiles) st)"
proof (cases dfiles)
  case Nil
  then show ?thesis by (simp add: share_fileset_def share_effects_def emit_Nil)
next
  case (Cons d ds)
  then have "\<not> length (sfile # dfiles) < 2" by simp
  then show ?thesis
    using share_loop_all_equal [OF assms, of "[]" st]
    by (simp add: share_fileset_def emit_def sess_commit_def)
qed

lemma share_fileset_some_differ:
  assumes "\<exists>d\<in>set dfiles. \<not> cmp_files w sfile d"
  shows "\<exists>e st1. share_fileset w f sz (sfile # dfiles) st = Inl (e, st1)
           \<and> events st1 = events st
           \<and> filter (\<lambda>x. x = Commit) (log st1) = filter (\<lambda>x. x = Commit) (log st)"
proof -
  from assms obtain before d after where
    split: "dfiles = before @ d # after" "\<not> cmp_files w sfile d"
      "\<forall>y\<in>set before. \<not> \<not> cmp_files w sfile y"
    using split_list_first_prop [of dfiles "\<lambda>d. \<not> cmp_files w sfile d"] by blast
  then have "\<forall>y\<in>set before. cmp_files w sfile y" by simp
  from share_loop_differ [OF this split(2), of after "[]" st]
  have "share_fileset w f sz (sfile # dfiles) st =
          Inl (Assert_files_differ sfile d,
               emit (share_effects w sfile before @ [Note (Files_differ sfile d)]) st)"
    by (simp add: share_fileset_def split(1))
  moreover have "filter (\<lambda>x. x = Commit) (share_effects w sfile before) = []"
    by (induction before) (simp_all add: share_effects_def)
  ultimately show ?thesis by (simp add: emit_def)
qed

text \<open>
  Claim C3. When the byte comparison of the source with a destination fails (all
  destinations before it having compared equal), the digest partition ends in the
  AssertionError raised at that pair: the effects are those of the destinations before
  it followed by the report ``Files differ''. No clone is attempted on that destination,
  on any later one, or on any later partition, and no event is written.
\<close>

theorem files_differ_fatal:
  assumes "\<forall>d\<in>set before. cmp_files w sfile d" and "\<not> cmp_files w sfile dfile"
  shows "share_fileset w f sz (sfile # before @ dfile # after) st =
           Inl (Assert_files_differ sfile dfile,
                emit (share_effects w sfile before @ [Note (Files_differ sfile dfile)]) st)
       \<and> share_filesets w f sz ((sfile # before @ dfile # after) # rest) st =
           Inl (Assert_files_differ sfile dfile,
                emit (share_effects w sfile before @ [Note (Files_differ sfile dfile)]) st)"
  using share_loop_differ [OF assms, of after "[]" st]
  by (simp add: share_fileset_def)

theorem files_differ_fatal_witness:
  "share_filesets (quiet_world\<lparr>cmp_files := (\<lambda>s d. ino d \<noteq> 3)\<rparr>) 1 50
      [[an_inode 1 1 50 True, an_inode 1 2 50 True, an_inode 1 3 50 True, an_inode 1 4 50 True],
       [an_inode 1 5 50 True, an_inode 1 6 50 True]]
      (a_session [] 1024 4096)
    = Inl (Assert_files_differ (an_inode 1 1 50 True) (an_inode 1 3 50 True),
           (a_session [] 1024 4096)
             \<lparr>log := [Clone_data (an_inode 1 1 50 True) (an_inode 1 2 50 True),
                      Note (Deduplicated (an_inode 1 1 50 True) (an_inode 1 2 50 True)),
                      Note (Files_differ (an_inode 1 1 50 True) (an_inode 1 3 50 True))]\<rparr>)"
proof -
  let ?w = "quiet_world\<lparr>cmp_files := (\<lambda>s d. ino d \<noteq> 3)\<rparr>"
  have h1: "\<forall>d\<in>set [an_inode 1 2 50 True]. cmp_files ?w (an_inode 1 1 50 True) d"
    by (simp add: an_inode_def)
  have h2: "\<not> cmp_files ?w (an_inode 1 1 50 True) (an_inode 1 3 50 True)"
    by (simp add: an_inode_def)
  from files_differ_fatal [OF h1 h2, of 1 50 "[an_inode 1 4 50 True]" "a_session [] 1024 4096"
      "[[an_inode 1 5 50 True, an_inode 1 6 50 True]]"]
  show ?thesis
    by (simp add: share_effects_def emit_def quiet_world_def a_session_def)
qed

text \<open>
  Claim C4, as stated, fails: the first destination is cloned, the second does not
  compare equal, and the assertion ends the partition before any event is written.
\<close>

theorem event_needs_every_compare_counterexample:
  "clone_data collision_world (file_no 1) (file_no 2)
   \<and> share_fileset collision_world 1 50 [file_no 1, file_no 2, file_no 3]
        (a_session [] 1024 4096)
      = Inl (Assert_files_differ (file_no 1) (file_no 3),
             (a_session [] 1024 4096)
               \<lparr>log := [Clone_data (file_no 1) (file_no 2),
                        Note (Deduplicated (file_no 1) (file_no 2)),
                        Note (Files_differ (file_no 1) (file_no 3))]\<rparr>)
   \<and> events ((a_session [] 1024 4096)
               \<lparr>log := [Clone_data (file_no 1) (file_no 2),
                        Note (Deduplicated (file_no 1) (file_no 2)),
                        Note (Files_differ (file_no 1) (file_no 3))]\<rparr>) = []"
  by code_simp

text \<open>
  Claim C4, amended. For a digest partition with source \<open>sfile\<close> and destinations
  \<open>dfiles\<close>: one DedupEvent is appended, and one commit follows it, if and only if every
  destination compared equal to the source and the clone of at least one succeeded;
  otherwise no event is appended and nothing is committed. The event names exactly the
  source and the destinations whose clone returned success, so a destination whose
  extents were already shared is not named.
\<close>

theorem event_iff_all_equal_and_one_cloned:
  "events (state_of (share_fileset w f sz (sfile # dfiles) st)) =
     events st @
       (if (\<forall>d\<in>set dfiles. cmp_files w sfile d) \<and> (\<exists>d\<in>set dfiles. clone_data w sfile d)
        then [new_event f sz (sfile # filter (clone_data w sfile) dfiles)] else [])
   \<and> filter (\<lambda>x. x = Commit) (log (state_of (share_fileset w f sz (sfile # dfiles) st))) =
     filter (\<lambda>x. x = Commit) (log st) @
       (if (\<forall>d\<in>set dfiles. cmp_files w sfile d) \<and> (\<exists>d\<in>set dfiles. clone_data w sfile d)
        then [Commit] else [])
   \<and> ev_inodes (new_event f sz (sfile # filter (clone_data w sfile) dfiles)) =
       key sfile # map key (filter (clone_data w sfile) dfiles)
   \<and> (distinct (map key (sfile # dfiles)) \<longrightarrow>
        (\<forall>d\<in>set dfiles. \<not> clone_data w sfile d \<longrightarrow>
           key d \<notin> set (ev_inodes (new_event f sz (sfile # filter (clone_data w sfile) dfiles)))))"
proof -
  have no_commit: "filter (\<lambda>x. x = Commit) (share_effects w sfile dfiles) = []"
    by (induction dfiles) (simp_all add: share_effects_def)
  have ex_iff: "(\<exists>d\<in>set dfiles. clone_data w sfile d) \<longleftrightarrow> filter (clone_data w sfile) dfiles \<noteq> []"
    by (simp add: filter_empty_conv)
  have part1: "events (state_of (share_fileset w f sz (sfile # dfiles) st)) =
     events st @
       (if (\<forall>d\<in>set dfiles. cmp_files w sfile d) \<and> (\<exists>d\<in>set dfiles. clone_data w sfile d)
        then [new_event f sz (sfile # filter (clone_data w sfile) dfiles)] else [])"
  proof (cases "\<forall>d\<in>set dfiles. cmp_files w sfile d")
    case True
    from share_fileset_all_equal [OF True, of f sz st] ex_iff True
    show ?thesis by (simp add: emit_def sess_commit_def)
  next
    case False
    then have "\<exists>d\<in>set dfiles. \<not> cmp_files w sfile d" by simp
    from share_fileset_some_differ [OF this, of f sz st] False
    show ?thesis by auto
  qed
  have part2: "filter (\<lambda>x. x = Commit) (log (state_of (share_fileset w f sz (sfile # dfiles) st))) =
     filter (\<lambda>x. x = Commit) (log st) @
       (if (\<forall>d\<in>set dfiles. cmp_files w sfile d) \<and> (\<exists>d\<in>set dfiles. clone_data w sfile d)
        then [Commit] else [])"
  proof (cases "\<forall>d\<in>set dfiles. cmp_files w sfile d")
    case True
    from share_fileset_all_equal [OF True, of f sz st] no_commit ex_iff True
    show ?thesis by (simp add: emit_def sess_commit_def)
  next
    case False
    then have "\<exists>d\<in>set dfiles. \<not> cmp_files w sfile d" by simp
    from share_fileset_some_differ [OF this, of f sz st] False
    show ?thesis by auto
  qed
  have part3: "ev_inodes (new_event f sz (sfile # filter (clone_data w sfile) dfiles)) =
       key sfile # map key (filter (clone_data w sfile) dfiles)"
    by (simp add: new_event_def)
  have part4: "distinct (map key (sfile # dfiles)) \<longrightarrow>
        (\<forall>d\<in>set dfiles. \<not> clone_data w sfile d \<longrightarrow>
           key d \<notin> set (ev_inodes (new_event f sz (sfile # filter (clone_data w sfile) dfiles))))"
  proof (intro impI ballI)
    fix d
    assume dist: "distinct (map key (sfile # dfiles))" and d: "d \<in> set dfiles"
      and nc: "\<not> clone_data w sfile d"
    from dist have inj: "inj_on key (set (sfile # dfiles))"
      unfolding distinct_map by (rule conjunct2)
    have "key d \<noteq> key sfile" using dist d by (metis distinct.simps(2) image_eqI list.simps(9) set_map)
    moreover have "key d \<notin> key ` set (filter (clone_data w sfile) dfiles)"
    proof
      assume "key d \<in> key ` set (filter (clone_data w sfile) dfiles)"
      then obtain d' where d': "d' \<in> set dfiles" "clone_data w sfile d'" "key d = key d'" by auto
      with inj d have "d = d'" by (auto dest: inj_onD)
      with d' nc show False by simp
    qed
    ultimately show "key d \<notin> set (ev_inodes (new_event f sz (sfile # filter (clone_data w sfile) dfiles)))"
      by (simp add: new_event_def)
  qed
  from part1 part2 part3 part4 show ?thesis by blast
qed

theorem event_iff_all_equal_and_one_cloned_witness:
  "events (state_of (share_fileset shared_world 1 50 [file_no 1, file_no 2, file_no 3]
             (a_session [] 1024 4096)))
     = [\<lparr>ev_fs = 1, item_size = 50, ev_inodes = [(1, 1), (1, 2)]\<rparr>]
   \<and> (1, 3) \<notin> set (ev_inodes (new_event 1 50 [file_no 1, file_no 2]))"
proof -
  have c: "(\<forall>d\<in>set [file_no 2, file_no 3]. cmp_files shared_world (file_no 1) d)
         \<and> (\<exists>d\<in>set [file_no 2, file_no 3]. clone_data shared_world (file_no 1) d)"
    by (simp add: shared_world_def quiet_world_def file_no_def an_inode_def)
  have f: "filter (clone_data shared_world (file_no 1)) [file_no 2, file_no 3] = [file_no 2]"
    by (simp add: shared_world_def quiet_world_def file_no_def an_inode_def)
  have d: "distinct (map key [file_no 1, file_no 2, file_no 3])"
    by (simp add: key_def file_no_def an_inode_def)
  note t = event_iff_all_equal_and_one_cloned [of shared_world 1 50 "file_no 1"
      "[file_no 2, file_no 3]" "a_session [] 1024 4096"]
  from t have "events (state_of (share_fileset shared_world 1 50
                  (file_no 1 # [file_no 2, file_no 3]) (a_session [] 1024 4096))) =
     events (a_session [] 1024 4096) @
       (if (\<forall>d\<in>set [file_no 2, file_no 3]. cmp_files shared_world (file_no 1) d)
           \<and> (\<exists>d\<in>set [file_no 2, file_no 3]. clone_data shared_world (file_no 1) d)
        then [new_event 1 50 (file_no 1 #
                filter (clone_data shared_world (file_no 1)) [file_no 2, file_no 3])]
        else [])"
    by (rule conjunct1)
  then have a: "events (state_of (share_fileset shared_world 1 50
                  [file_no 1, file_no 2, file_no 3] (a_session [] 1024 4096)))
     = [\<lparr>ev_fs = 1, item_size = 50, ev_inodes = [(1, 1), (1, 2)]\<rparr>]"
    unfolding f if_P [OF c]
    by (simp add: a_session_def new_event_def key_def file_no_def an_inode_def)
  from t have "distinct (map key (file_no 1 # [file_no 2, file_no 3])) \<longrightarrow>
        (\<forall>d\<in>set [file_no 2, file_no 3]. \<not> clone_data shared_world (file_no 1) d \<longrightarrow>
           key d \<notin> set (ev_inodes (new_event 1 50 (file_no 1 #
                filter (clone_data shared_world (file_no 1)) [file_no 2, file_no 3]))))"
    by (rule conjunct2 [OF conjunct2 [OF conjunct2]])
  with d have "\<not> clone_data shared_world (file_no 1) (file_no 3) \<longrightarrow>
           key (file_no 3) \<notin> set (ev_inodes (new_event 1 50 [file_no 1, file_no 2]))"
    unfolding f by simp
  then have b: "(1, 3) \<notin> set (ev_inodes (new_event 1 50 [file_no 1, file_no 2]))"
    by (simp add: shared_world_def quiet_world_def key_def file_no_def an_inode_def)
  from a b show ?thesis by blast
qed

subsection \<open>Which inodes an event can name\<close>

lemma events_within_same: "events st1 = events st \<Longrightarrow> events_within st st1 K"
  by (simp add: events_within_def)

lemma events_within_trans:
  "events_within st st1 K \<Longrightarrow> events_within st1 st2 K \<Longrightarrow> events_within st st2 K"
  by (auto simp: events_within_def)

lemma events_within_mono: "events_within st st1 K \<Longrightarrow> K \<subseteq> K' \<Longrightarrow> events_within st st1 K'"
  by (auto simp: events_within_def list_all_iff)

lemma values_dict_append:
  "\<Union> (set ` set (itervalues (dict_append d k v))) = insert v (\<Union> (set ` set (itervalues d)))"
  by (induction d k v rule: dict_append.induct) (auto simp: itervalues_def)

lemma share_loop_within:
  "share_loop w s ds acc st = Inr (acc1, st1) \<Longrightarrow>
     events st1 = events st \<and> set acc1 \<subseteq> set acc \<union> set ds"
proof (induction ds arbitrary: acc st)
  case Nil
  then show ?case by simp
next
  case (Cons d ds)
  show ?case
  proof (cases "clone_data w s d")
    case True
    with Cons.prems have
      "share_loop w s ds (acc @ [d]) (emit [Clone_data s d, Note (Deduplicated s d)] st)
         = Inr (acc1, st1)"
      by (simp split: if_splits)
    from Cons.IH [OF this] show ?thesis by (auto simp: emit_def)
  next
    case False
    with Cons.prems have
      "share_loop w s ds acc (emit [Clone_data s d, Note (Same_extents s d)] st)
         = Inr (acc1, st1)"
      by (simp split: if_splits)
    from Cons.IH [OF this] show ?thesis by (auto simp: emit_def)
  qed
qed

lemma share_loop_error_events:
  "share_loop w s ds acc st = Inl (e, st1) \<Longrightarrow> events st1 = events st"
  by (induction ds arbitrary: acc st) (auto simp: emit_def split: if_splits)

lemma share_fileset_within:
  "events_within st (state_of (share_fileset w f sz fileset st)) (key ` set fileset)"
proof (cases "length fileset < 2")
  case True
  then show ?thesis by (simp add: share_fileset_def state_of_def events_within_same)
next
  case False
  then obtain s ds where fileset: "fileset = s # ds" by (cases fileset) auto
  show ?thesis
  proof (cases "share_loop w s ds [] st")
    case (Inl a)
    then obtain e st1 where a: "a = (e, st1)" by (cases a)
    with Inl share_loop_error_events [of w s ds "[]" st e st1] False show ?thesis
      by (simp add: share_fileset_def fileset state_of_def events_within_same)
  next
    case (Inr b)
    then obtain acc1 st1 where b: "b = (acc1, st1)" by (cases b)
    with Inr share_loop_within [of w s ds "[]" st acc1 st1]
    have *: "events st1 = events st" "set acc1 \<subseteq> set ds" by auto
    show ?thesis
    proof (cases "acc1 = []")
      case True
      with Inr b * False show ?thesis
        by (simp add: share_fileset_def fileset state_of_def events_within_same)
    next
      case nonempty: False
      with Inr b * False show ?thesis
        by (auto simp: share_fileset_def fileset state_of_def events_within_def emit_def
            sess_commit_def
            new_event_def)
    qed
  qed
qed

lemma share_filesets_within:
  "events_within st (state_of (share_filesets w f sz fss st)) (key ` \<Union> (set ` set fss))"
proof (induction fss arbitrary: st)
  case Nil
  then show ?case by (simp add: events_within_same)
next
  case (Cons fileset fss)
  have first: "events_within st (state_of (share_fileset w f sz fileset st))
                 (key ` \<Union> (set ` set (fileset # fss)))"
    by (rule events_within_mono [OF share_fileset_within]) auto
  show ?case
  proof (cases "share_fileset w f sz fileset st")
    case (Inl a)
    with first show ?thesis by (cases a) simp
  next
    case (Inr st1)
    have "events_within st1 (state_of (share_filesets w f sz fss st1))
            (key ` \<Union> (set ` set (fileset # fss)))"
      by (rule events_within_mono [OF Cons.IH]) auto
    with first Inr show ?thesis by (auto intro: events_within_trans)
  qed
qed

lemma hash_file_within:
  assumes "hash_file w sz i by_hash st = (by_hash1, st1)"
  shows "events st1 = events st \<and>
     \<Union> (set ` set (itervalues by_hash1))
       \<subseteq> \<Union> (set ` set (itervalues by_hash)) \<union> {j. j = i \<and> rechecked w sz j}"
proof (cases "rechecked w sz i")
  case True
  with assms have "by_hash1 = dict_append by_hash (sha1_digest w i) i" "st1 = st"
    by (auto simp: hash_file_def rechecked_def)
  with True show ?thesis by (simp only: values_dict_append) auto
next
  case False
  with assms have "by_hash1 = by_hash" "events st1 = events st"
    by (auto simp: hash_file_def rechecked_def skip_def emit_def sess_delete_def Let_def
        split: if_splits)
  then show ?thesis by auto
qed

lemma hash_files_within:
  "hash_files w sz files by_hash st = (by_hash1, st1) \<Longrightarrow>
     events st1 = events st \<and>
     \<Union> (set ` set (itervalues by_hash1))
       \<subseteq> \<Union> (set ` set (itervalues by_hash)) \<union> {j \<in> set files. rechecked w sz j}"
proof (induction files arbitrary: by_hash st)
  case Nil
  then show ?case by simp
next
  case (Cons i files)
  obtain bh2 st2 where h: "hash_file w sz i by_hash st = (bh2, st2)"
    by (cases "hash_file w sz i by_hash st")
  with Cons.prems have "hash_files w sz files bh2 st2 = (by_hash1, st1)" by simp
  from Cons.IH [OF this] hash_file_within [OF h] show ?case by auto
qed

lemma open_files_events:
  "open_files w is files st = Inr (files1, st1) \<Longrightarrow> events st1 = events st"
  by (induction "is" arbitrary: files st)
     (auto simp: emit_def skip_def sess_delete_def split: if_splits sum.splits option.splits)

lemma open_files_subset:
  "open_files w is files st = Inr (files1, st1) \<Longrightarrow> set files1 \<subseteq> set files \<union> set is"
proof (induction "is" arbitrary: files st)
  case Nil
  then show ?case by simp
next
  case (Cons i "is")
  from Cons.prems have
    "(\<exists>st2. open_files w is files st2 = Inr (files1, st1))
     \<or> (\<exists>st2. open_files w is (files @ [i]) st2 = Inr (files1, st1))"
    by (simp split: if_splits sum.splits option.splits) blast+
  then show ?case using Cons.IH by fastforce
qed

lemma open_files_error_events:
  "open_files w is files st = Inl (e, st1) \<Longrightarrow> events st1 = events st"
  by (induction "is" arbitrary: files st)
     (auto simp: emit_def skip_def sess_delete_def split: if_splits sum.splits option.splits)


lemma ofile_budget_events:
  "ofile_budget res sz is st = (b, st1) \<Longrightarrow> events st1 = events st"
  by (auto simp: ofile_budget_def Let_def emit_def split: if_splits)

lemma open_and_share_within:
  "events_within st (state_of (open_and_share w res f sz is st))
     (key ` {j \<in> set is. rechecked w sz j})"
proof -
  obtain b st1 where budget: "ofile_budget res sz is st = (b, st1)"
    by (cases "ofile_budget res sz is st")
  then have e1: "events st1 = events st" by (rule ofile_budget_events)
  show ?thesis
  proof (cases b)
    case False
    with budget e1 show ?thesis
      by (simp add: open_and_share_def events_within_same)
  next
    case True
    show ?thesis
    proof (cases "open_files w is [] st1")
      case (Inl a)
      obtain e st2 where a: "a = (e, st2)" by (cases a)
      with Inl have "events st2 = events st1" by (simp add: open_files_error_events)
      with budget True Inl a e1 show ?thesis
        by (simp add: open_and_share_def events_within_same)
    next
      case (Inr c)
      obtain files st2 where c: "c = (files, st2)" by (cases c)
      with Inr have o: "open_files w is [] st1 = Inr (files, st2)" by simp
      have e2: "events st2 = events st1" using open_files_events [OF o] .
      have sub: "set files \<subseteq> set is" using open_files_subset [OF o] by simp
      obtain by_hash st3 where h: "hash_files w sz files [] st2 = (by_hash, st3)"
        by (cases "hash_files w sz files [] st2")
      from hash_files_within [OF h] have e3: "events st3 = events st2"
        and vals: "\<Union> (set ` set (itervalues by_hash)) \<subseteq> {j \<in> set files. rechecked w sz j}"
        by (auto simp: itervalues_def)
      have "events_within st3 (state_of (share_filesets w f sz (itervalues by_hash) st3))
              (key ` {j \<in> set is. rechecked w sz j})"
        by (rule events_within_mono [OF share_filesets_within]) (use vals sub in blast)
      then have "events_within st (state_of (share_filesets w f sz (itervalues by_hash) st3))
              (key ` {j \<in> set is. rechecked w sz j})"
        using e1 e2 e3 by (simp add: events_within_def)
      with budget True o h show ?thesis by (simp add: open_and_share_def)
    qed
  qed
qed

lemma fiemap_hashes_events:
  "fiemap_hashes w is fies st = Inr (fies1, st1) \<Longrightarrow> events st1 = events st"
  "fiemap_hashes w is fies st = Inl (e, st1) \<Longrightarrow> events st1 = events st"
  by (induction "is" arbitrary: fies st)
     (auto simp: sess_delete_def split: if_splits sum.splits option.splits)

lemma dedup_partition_within:
  "events_within st (state_of (dedup_partition w res f sz is st))
     (key ` {j \<in> set is. rechecked w sz j})"
proof (cases "length is < 2")
  case True
  then show ?thesis by (simp add: dedup_partition_def events_within_same)
next
  case False
  let ?st1 = "st\<lparr>space_gain2 := space_gain2 st + int sz * (int (length is) - 1)\<rparr>"
  show ?thesis
  proof (cases "fiemap_hashes w is [] ?st1")
    case (Inl a)
    obtain e st2 where a: "a = (e, st2)" by (cases a)
    with Inl fiemap_hashes_events(2) [of w "is" "[]" ?st1 e st2] False show ?thesis
      by (simp add: dedup_partition_def Let_def events_within_same)
  next
    case (Inr c)
    obtain fies st2 where c: "c = (fies, st2)" by (cases c)
    with Inr fiemap_hashes_events(1) [of w "is" "[]" ?st1 fies st2]
    have e2: "events st2 = events st" by simp
    let ?st3 = "st2\<lparr>space_gain3 := space_gain3 st2 + int sz * (int (length is) - 1)\<rparr>"
    have "events_within ?st3 (state_of (open_and_share w res f sz is ?st3))
            (key ` {j \<in> set is. rechecked w sz j})"
      by (rule open_and_share_within)
    then have "events_within st (state_of (open_and_share w res f sz is ?st3))
            (key ` {j \<in> set is. rechecked w sz j})"
      using e2 by (simp add: events_within_def)
    with Inr c e2 False show ?thesis
      by (simp add: dedup_partition_def Let_def events_within_same)
  qed
qed

lemma dedup_partitions_within:
  "events_within st (state_of (dedup_partitions w res f sz parts st))
     (key ` {j \<in> \<Union> (set ` set parts). rechecked w sz j})"
proof (induction parts arbitrary: st)
  case Nil
  then show ?case by (simp add: events_within_same)
next
  case (Cons p parts)
  let ?K = "key ` {j \<in> \<Union> (set ` set (p # parts)). rechecked w sz j}"
  have first: "events_within st (state_of (dedup_partition w res f sz p st)) ?K"
    by (rule events_within_mono [OF dedup_partition_within]) auto
  show ?case
  proof (cases "dedup_partition w res f sz p st")
    case (Inl a)
    with first show ?thesis by (cases a) simp
  next
    case (Inr st1)
    have "events_within st1 (state_of (dedup_partitions w res f sz parts st1)) ?K"
      by (rule events_within_mono [OF Cons.IH]) auto
    with first Inr show ?thesis by (auto intro: events_within_trans)
  qed
qed

lemma by_mini_hash_events:
  "by_mini_hash w is by_mh st = Inr (by_mh1, st1) \<Longrightarrow> events st1 = events st"
  "by_mini_hash w is by_mh st = Inl (e, st1) \<Longrightarrow> events st1 = events st"
  by (induction "is" arbitrary: by_mh st)
     (auto simp: sess_delete_def split: if_splits sum.splits option.splits)

lemma by_mini_hash_values:
  "by_mini_hash w is by_mh st = Inr (by_mh1, st1) \<Longrightarrow>
     \<Union> (set ` set (itervalues by_mh1)) \<subseteq> \<Union> (set ` set (itervalues by_mh)) \<union> set is"
proof (induction "is" arbitrary: by_mh st)
  case Nil
  then show ?case by simp
next
  case (Cons i "is")
  from Cons.prems have
    "(\<exists>st2. by_mini_hash w is by_mh st2 = Inr (by_mh1, st1))
     \<or> (\<exists>st2. by_mini_hash w is (dict_append by_mh (mini_hash_from_file w i) i) st2
                = Inr (by_mh1, st1))"
    by (simp split: if_splits sum.splits option.splits) blast+
  then show ?case
  proof
    assume "\<exists>st2. by_mini_hash w is by_mh st2 = Inr (by_mh1, st1)"
    then show ?thesis using Cons.IH by fastforce
  next
    assume "\<exists>st2. by_mini_hash w is (dict_append by_mh (mini_hash_from_file w i) i) st2
                = Inr (by_mh1, st1)"
    then obtain st2 where
      "by_mini_hash w is (dict_append by_mh (mini_hash_from_file w i) i) st2 = Inr (by_mh1, st1)"
      by blast
    from Cons.IH [OF this] show ?thesis
      by (simp only: values_dict_append) auto
  qed
qed

lemma dedup_group_within:
  "events_within st (state_of (dedup_group w res f c st))
     (key ` {j \<in> set (inodes c). rechecked w (c_size c) j})"
proof -
  let ?st1 = "st\<lparr>space_gain1 := space_gain1 st + int (c_size c) * (int (inode_count c) - 1)\<rparr>"
  show ?thesis
  proof (cases "by_mini_hash w (inodes c) [] ?st1")
    case (Inl a)
    obtain e st2 where a: "a = (e, st2)" by (cases a)
    with Inl by_mini_hash_events(2) [of w "inodes c" "[]" ?st1 e st2] show ?thesis
      by (simp add: dedup_group_def Let_def events_within_same)
  next
    case (Inr b)
    obtain by_mh st2 where b: "b = (by_mh, st2)" by (cases b)
    with Inr have m: "by_mini_hash w (inodes c) [] ?st1 = Inr (by_mh, st2)" by simp
    have e2: "events st2 = events st" using by_mini_hash_events(1) [OF m] by simp
    have vals: "\<Union> (set ` set (itervalues by_mh)) \<subseteq> set (inodes c)"
      using by_mini_hash_values [OF m] by (simp add: itervalues_def)
    have "events_within st2
            (state_of (dedup_partitions w res f (c_size c) (itervalues by_mh) st2))
            (key ` {j \<in> set (inodes c). rechecked w (c_size c) j})"
      by (rule events_within_mono [OF dedup_partitions_within]) (use vals in blast)
    then have "events_within st
            (state_of (dedup_partitions w res f (c_size c) (itervalues by_mh) st2))
            (key ` {j \<in> set (inodes c). rechecked w (c_size c) j})"
      using e2 by (simp add: events_within_def)
    with m show ?thesis by (simp add: dedup_group_def Let_def)
  qed
qed

text \<open>
  Claim C5. For a file that is not write-busy, after hashing: when the inode number or
  the device of \<open>fstat\<close> differs from the recorded one, the inode is appended to the
  skip list and the digest dictionary is unchanged; when these match and the read
  position differs from the group's size, the row is deleted if the new size is below the
  volume's cutoff and the inode is appended to the skip list otherwise, the dictionary
  again unchanged. In each of these cases no event written while the inode's group is
  processed names the inode.
\<close>

theorem stage5_recheck:
  "(\<not> fds_in_write_use w i
      \<and> (fstat_ino w i \<noteq> ino i \<or> fstat_dev w i \<noteq> st_dev (inode_vol w i)) \<longrightarrow>
      hash_file w sz i by_hash st = (by_hash, skip i st))
   \<and> (\<not> fds_in_write_use w i \<and> fstat_ino w i = ino i
      \<and> fstat_dev w i = st_dev (inode_vol w i) \<and> tell w i \<noteq> sz \<longrightarrow>
      hash_file w sz i by_hash st =
        (by_hash, if tell w i < size_cutoff (inode_vol w i) then sess_delete i st
                  else skip i st))
   \<and> skipped (skip i st) = skipped st @ [i]
   \<and> key i \<notin> key ` set (rows (sess_delete i st))
   \<and> (\<not> fds_in_write_use w i
      \<and> (fstat_ino w i \<noteq> ino i \<or> fstat_dev w i \<noteq> st_dev (inode_vol w i)
          \<or> tell w i \<noteq> c_size c)
      \<and> i \<in> set (inodes c) \<and> distinct (map key (inodes c)) \<longrightarrow>
      (\<exists>new. events (state_of (dedup_group w res f c st)) = events st @ new
             \<and> list_all (\<lambda>ev. key i \<notin> set (ev_inodes ev)) new))"
proof (intro conjI impI)
  assume "\<not> fds_in_write_use w i
      \<and> (fstat_ino w i \<noteq> ino i \<or> fstat_dev w i \<noteq> st_dev (inode_vol w i))"
  then show "hash_file w sz i by_hash st = (by_hash, skip i st)"
    by (auto simp: hash_file_def)
next
  assume "\<not> fds_in_write_use w i \<and> fstat_ino w i = ino i
      \<and> fstat_dev w i = st_dev (inode_vol w i) \<and> tell w i \<noteq> sz"
  then show "hash_file w sz i by_hash st =
        (by_hash, if tell w i < size_cutoff (inode_vol w i) then sess_delete i st
                  else skip i st)"
    by (simp add: hash_file_def Let_def)
next
  show "skipped (skip i st) = skipped st @ [i]" by (simp add: skip_def)
next
  show "key i \<notin> key ` set (rows (sess_delete i st))" by (auto simp: sess_delete_def)
next
  assume a: "\<not> fds_in_write_use w i
      \<and> (fstat_ino w i \<noteq> ino i \<or> fstat_dev w i \<noteq> st_dev (inode_vol w i)
          \<or> tell w i \<noteq> c_size c)
      \<and> i \<in> set (inodes c) \<and> distinct (map key (inodes c))"
  then have nr: "\<not> rechecked w (c_size c) i" by (auto simp: rechecked_def)
  from a have inj: "inj_on key (set (inodes c))" and i: "i \<in> set (inodes c)"
    by (simp_all add: distinct_map)
  have out: "key i \<notin> key ` {j \<in> set (inodes c). rechecked w (c_size c) j}"
  proof
    assume "key i \<in> key ` {j \<in> set (inodes c). rechecked w (c_size c) j}"
    then obtain j where j: "j \<in> set (inodes c)" "rechecked w (c_size c) j" "key i = key j"
      by auto
    with inj i have "i = j" by (auto dest: inj_onD)
    with j nr show False by simp
  qed
  from dedup_group_within [of st w res f c] obtain new where
    new: "events (state_of (dedup_group w res f c st)) = events st @ new"
      "list_all (\<lambda>ev. set (ev_inodes ev) \<subseteq> key ` {j \<in> set (inodes c). rechecked w (c_size c) j}) new"
    unfolding events_within_def by blast
  from new(2) out have "list_all (\<lambda>ev. key i \<notin> set (ev_inodes ev)) new"
    by (auto simp: list_all_iff)
  with new(1) show "\<exists>new. events (state_of (dedup_group w res f c st)) = events st @ new
             \<and> list_all (\<lambda>ev. key i \<notin> set (ev_inodes ev)) new"
    by blast
qed

theorem stage5_recheck_witness:
  "hash_file shrunk_world 50 (file_no 3) []
       (a_session [file_no 1, file_no 2, file_no 3] 1024 4096)
     = ([], a_session [file_no 1, file_no 2] 1024 4096)
   \<and> (\<exists>new. events (state_of (dedup_group shrunk_world 8 1
                 \<lparr>c_size = 50, inode_count = 3,
                    inodes = [file_no 1, file_no 2, file_no 3]\<rparr>
                 (a_session [file_no 1, file_no 2, file_no 3] 1024 4096))) = new
          \<and> list_all (\<lambda>ev. (1, 3) \<notin> set (ev_inodes ev)) new)
   \<and> events (state_of (dedup_group shrunk_world 8 1
                 \<lparr>c_size = 50, inode_count = 3,
                    inodes = [file_no 1, file_no 2, file_no 3]\<rparr>
                 (a_session [file_no 1, file_no 2, file_no 3] 1024 4096)))
       = [\<lparr>ev_fs = 1, item_size = 50, ev_inodes = [(1, 1), (1, 2)]\<rparr>]"
proof -
  let ?st = "a_session [file_no 1, file_no 2, file_no 3] 1024 4096"
  let ?c = "\<lparr>c_size = 50, inode_count = 3, inodes = [file_no 1, file_no 2, file_no 3]\<rparr>"
  note t = stage5_recheck [of shrunk_world "file_no 3" 50 "[]" ?st ?c 8 1]
  have h2: "\<not> fds_in_write_use shrunk_world (file_no 3)
      \<and> fstat_ino shrunk_world (file_no 3) = ino (file_no 3)
      \<and> fstat_dev shrunk_world (file_no 3) = st_dev (inode_vol shrunk_world (file_no 3))
      \<and> tell shrunk_world (file_no 3) \<noteq> 50"
    by (simp add: shrunk_world_def quiet_world_def file_no_def an_inode_def inode_vol_def
        a_volume_def)
  have small: "tell shrunk_world (file_no 3) < size_cutoff (inode_vol shrunk_world (file_no 3))"
    by (simp add: shrunk_world_def quiet_world_def file_no_def an_inode_def inode_vol_def
        a_volume_def)
  from t h2 have "hash_file shrunk_world 50 (file_no 3) [] ?st =
        ([], if tell shrunk_world (file_no 3) < size_cutoff (inode_vol shrunk_world (file_no 3))
             then sess_delete (file_no 3) ?st else skip (file_no 3) ?st)"
    by blast
  then have a: "hash_file shrunk_world 50 (file_no 3) [] ?st
                  = ([], a_session [file_no 1, file_no 2] 1024 4096)"
    unfolding if_P [OF small]
    by (simp add: sess_delete_def a_session_def key_def file_no_def an_inode_def)
  have h5: "\<not> fds_in_write_use shrunk_world (file_no 3)
      \<and> (fstat_ino shrunk_world (file_no 3) \<noteq> ino (file_no 3)
          \<or> fstat_dev shrunk_world (file_no 3) \<noteq> st_dev (inode_vol shrunk_world (file_no 3))
          \<or> tell shrunk_world (file_no 3) \<noteq> c_size ?c)
      \<and> file_no 3 \<in> set (inodes ?c) \<and> distinct (map key (inodes ?c))"
    by (simp add: shrunk_world_def quiet_world_def file_no_def an_inode_def key_def)
  from t h5 have "\<exists>new. events (state_of (dedup_group shrunk_world 8 1 ?c ?st))
                        = events ?st @ new
             \<and> list_all (\<lambda>ev. key (file_no 3) \<notin> set (ev_inodes ev)) new"
    by blast
  then have b: "\<exists>new. events (state_of (dedup_group shrunk_world 8 1 ?c ?st)) = new
          \<and> list_all (\<lambda>ev. (1, 3) \<notin> set (ev_inodes ev)) new"
    by (simp add: a_session_def key_def file_no_def an_inode_def)
  have c: "events (state_of (dedup_group shrunk_world 8 1 ?c ?st))
       = [\<lparr>ev_fs = 1, item_size = 50, ev_inodes = [(1, 1), (1, 2)]\<rparr>]"
    by code_simp
  from a b c show ?thesis by blast
qed

subsection \<open>The open-files budget\<close>

text \<open>The budget step keeps the soft limit at or below the hard limit.\<close>

lemma ofile_budget_keeps_order:
  "ofile_soft st \<le> ofile_hard st \<Longrightarrow> ofile_budget res sz is st = (go, st1) \<Longrightarrow>
     ofile_soft st1 \<le> ofile_hard st1 \<and> ofile_hard st1 = ofile_hard st"
  by (auto simp: ofile_budget_def Let_def emit_def split: if_splits)

text \<open>
  With the soft limit not above the hard limit, as the operating system keeps them: a
  request above the soft limit and not above the hard limit raises the soft limit to the
  request; a request above the hard limit abandons the partition with a notice and the
  inodes that have \<open>has_updates\<close> appended to the skip list, and nothing else: no file is
  opened, no row deleted, no event written.
\<close>

lemma ofile_budget_cases:
  assumes "ofile_soft st \<le> ofile_hard st"
    and "req = 2 * int (length is) + ofile_reserved"
  shows "(ofile_soft st < req \<and> req \<le> ofile_hard st \<longrightarrow>
           ofile_budget ofile_reserved sz is st =
             (True, (emit [Setrlimit req (ofile_hard st)] st)\<lparr>ofile_soft := req\<rparr>))
    \<and> (ofile_hard st < req \<longrightarrow>
           open_and_share w ofile_reserved f sz is st =
             Inr ((emit [Note (Too_many_duplicates (length is) sz (ofile_soft st)
                               (ofile_hard st))] st)
                    \<lparr>skipped := skipped st @ filter has_updates is\<rparr>))"
proof (intro conjI impI)
  assume "ofile_soft st < req \<and> req \<le> ofile_hard st"
  then show "ofile_budget ofile_reserved sz is st =
           (True, (emit [Setrlimit req (ofile_hard st)] st)\<lparr>ofile_soft := req\<rparr>)"
    by (simp add: ofile_budget_def Let_def assms(2))
next
  assume "ofile_hard st < req"
  with assms(1) have "ofile_budget ofile_reserved sz is st =
      (False, (emit [Note (Too_many_duplicates (length is) sz (ofile_soft st)
                               (ofile_hard st))] st)
                    \<lparr>skipped := skipped st @ filter has_updates is\<rparr>)"
    by (simp add: ofile_budget_def Let_def assms(2))
  then show "open_and_share w ofile_reserved f sz is st =
             Inr ((emit [Note (Too_many_duplicates (length is) sz (ofile_soft st)
                               (ofile_hard st))] st)
                    \<lparr>skipped := skipped st @ filter has_updates is\<rparr>)"
    by (simp add: open_and_share_def)
qed

text \<open>
  When every object on the skip list holds \<open>True\<close> and none was unloaded, the assignments
  of \<open>clear_updates\<close> write nothing: the rows are what the one-sided UPDATE left.
\<close>

lemma clear_updates_writes_nothing:
  assumes "truth (Size_le ws) = Some b"
    and "list_all has_updates (skipped st)" and "expired st = []"
  shows "\<exists>st1. clear_updates truth filt_crit ws we st = Inr st1
           \<and> rows st1 =
               map (\<lambda>r. if filt_crit r
                            \<and> holds (if b then Size_ge we else Size_le ws) (isize r)
                         then r\<lparr>has_updates := False\<rparr> else r) (rows st)"
proof -
  have "\<not> list_ex (\<lambda>i. key i = k \<and> assignment_flushed st i) (skipped st)" for k
    using assms(2,3) by (auto simp: list_ex_iff list_all_iff assignment_flushed_def)
  then show ?thesis
    using assms(1)
    by (simp add: clear_updates_def chained_ge_def Let_def please_checkpoint_def emit_def)
qed

section \<open>Properties of dedup_tracked\<close>

subsection \<open>The same-filesystem assertion\<close>

lemma raises_simps [simp]:
  "raises (Inl (e', st)) e = (e' = e)" "raises (Inr x) e = False"
  by (simp_all add: raises_def)

lemma raises_iff: "raises r e \<longleftrightarrow> (\<exists>st. r = Inl (e, st))"
  by (auto simp: raises_def split: sum.splits)

lemma clear_updates_no_fs:
  "clear_updates truth filt_crit ws we st \<noteq> Inl (Assert_same_fs, st1)"
  by (auto simp: clear_updates_def chained_ge_def Let_def split: option.splits sum.splits)

lemma by_mini_hash_no_fs: "by_mini_hash w is by_mh st \<noteq> Inl (Assert_same_fs, st1)"
  by (induction "is" arbitrary: by_mh st) (auto split: sum.splits option.splits)

lemma fiemap_hashes_no_fs: "fiemap_hashes w is fies st \<noteq> Inl (Assert_same_fs, st1)"
  by (induction "is" arbitrary: fies st) (auto split: sum.splits option.splits)

lemma open_files_no_fs: "open_files w is files st \<noteq> Inl (Assert_same_fs, st1)"
  by (induction "is" arbitrary: files st) (auto split: sum.splits option.splits)

lemma share_loop_no_fs: "share_loop w s ds acc st \<noteq> Inl (Assert_same_fs, st1)"
  by (induction ds arbitrary: acc st) auto

lemma share_fileset_no_fs: "share_fileset w f sz fileset st \<noteq> Inl (Assert_same_fs, st1)"
  by (auto simp: share_fileset_def Let_def share_loop_no_fs split: sum.splits prod.splits)

lemma share_filesets_no_fs: "share_filesets w f sz fss st \<noteq> Inl (Assert_same_fs, st1)"
  by (induction fss arbitrary: st) (auto simp: share_fileset_no_fs split: sum.splits)

lemma open_and_share_no_fs: "open_and_share w res f sz is st \<noteq> Inl (Assert_same_fs, st1)"
  by (auto simp: open_and_share_def open_files_no_fs share_filesets_no_fs
      split: sum.splits prod.splits bool.splits)

lemma dedup_partition_no_fs: "dedup_partition w res f sz is st \<noteq> Inl (Assert_same_fs, st1)"
  by (auto simp: dedup_partition_def Let_def fiemap_hashes_no_fs open_and_share_no_fs
      split: sum.splits prod.splits)

lemma dedup_partitions_no_fs:
  "dedup_partitions w res f sz parts st \<noteq> Inl (Assert_same_fs, st1)"
  by (induction parts arbitrary: st) (auto simp: dedup_partition_no_fs split: sum.splits)

lemma dedup_group_no_fs: "dedup_group w res f c st \<noteq> Inl (Assert_same_fs, st1)"
  by (auto simp: dedup_group_def Let_def by_mini_hash_no_fs dedup_partitions_no_fs
      split: sum.splits prod.splits)

lemma yield_groups_no_fs:
  assumes "\<And>c st st1. body c st \<noteq> Inl (Assert_same_fs, st1)"
  shows "snd (yield_groups body gs st) \<noteq> Inl (Assert_same_fs, st1)"
proof (induction gs arbitrary: st)
  case Nil
  then show ?case by simp
next
  case (Cons g gs)
  obtain s "is" where g: "g = (s, is)" by (cases g)
  let ?c = "\<lparr>c_size = s, inode_count = length is, inodes = is\<rparr>"
  show ?case
  proof (cases "body ?c st")
    case (Inl a)
    with assms [of ?c st] show ?thesis by (auto simp: g)
  next
    case (Inr st2)
    obtain ys r where y: "yield_groups body gs st2 = (ys, r)"
      by (cases "yield_groups body gs st2")
    with Cons.IH [of st2] have "r \<noteq> Inl (Assert_same_fs, st1)" by simp
    with Inr y show ?thesis by (simp add: g)
  qed
qed

lemma window_loop_end:
  assumes "\<And>c st st1. body c st \<noteq> Inl (Assert_same_fs, st1)"
  shows "\<not> end_raises (snd (window_loop body truth filt_crit n ws ys st)) Assert_same_fs"
  using assms
proof (induction body truth filt_crit n ws ys st rule: window_loop.induct)
  case (1 body truth filt_crit window_size window_start ys st)
  let ?li = "window_select filt_crit window_size window_start (rows st)"
  show ?case
  proof (cases "?li = []")
    case True
    then show ?thesis
      by (subst window_loop.simps) (simp add: end_raises_def raises_iff clear_updates_no_fs)
  next
    case False
    let ?yg = "yield_groups body (groupby isize (window_inodes filt_crit ?li (rows st))) st"
    obtain ys1 r where yg: "?yg = (ys1, r)" by (cases ?yg)
    have nr: "\<not> raises r Assert_same_fs"
      using yield_groups_no_fs [of body "groupby isize (window_inodes filt_crit ?li (rows st))" st]
        "1.prems" yg by (simp add: raises_iff)
    show ?thesis
    proof (cases r)
      case (Inl err)
      with False yg nr show ?thesis
        by (subst window_loop.simps) (simp add: Let_def end_raises_def)
    next
      case (Inr st1)
      note r = this
      show ?thesis
      proof (cases "clear_updates truth filt_crit (Some (int (hd ?li))) (int (last ?li)) st1")
        case (Inl err)
        with False yg r clear_updates_no_fs [of truth filt_crit "Some (int (hd ?li))" "int (last ?li)" st1]
        show ?thesis
          by (subst window_loop.simps) (auto simp: Let_def end_raises_def raises_iff)
      next
        case (Inr st2)
        have "\<not> end_raises (snd (window_loop body truth filt_crit window_size
                 (Some (int (last ?li) - 1)) (ys @ ys1) st2)) Assert_same_fs"
          using "1.IH" [OF refl False refl refl refl yg [unfolded r, symmetric] refl Inr "1.prems"] .
        with False yg r Inr show ?thesis
          by (subst window_loop.simps) (simp add: Let_def)
      qed
    qed
  qed
qed

lemma window_loop_returns:
  "\<not> left_loop (snd (window_loop body truth filt_crit n ws ys st))"
proof (induction body truth filt_crit n ws ys st rule: window_loop.induct)
  case (1 body truth filt_crit window_size window_start ys st)
  let ?li = "window_select filt_crit window_size window_start (rows st)"
  show ?case
  proof (cases "?li = []")
    case True
    then show ?thesis
      by (subst window_loop.simps) (simp add: left_loop_def)
  next
    case False
    let ?yg = "yield_groups body (groupby isize (window_inodes filt_crit ?li (rows st))) st"
    obtain ys1 r where yg: "?yg = (ys1, r)" by (cases ?yg)
    show ?thesis
    proof (cases r)
      case (Inl err)
      with False yg show ?thesis
        by (subst window_loop.simps) (simp add: Let_def left_loop_def)
    next
      case (Inr st1)
      note r = this
      show ?thesis
      proof (cases "clear_updates truth filt_crit (Some (int (hd ?li))) (int (last ?li)) st1")
        case (Inl err)
        with False yg r show ?thesis
          by (subst window_loop.simps) (simp add: Let_def left_loop_def)
      next
        case (Inr st2)
        have "\<not> left_loop (snd (window_loop body truth filt_crit window_size
                 (Some (int (last ?li) - 1)) (ys @ ys1) st2))"
          using "1.IH" [OF refl False refl refl refl yg [unfolded r, symmetric] refl Inr] .
        with False yg r Inr show ?thesis
          by (subst window_loop.simps) (simp add: Let_def)
      qed
    qed
  qed
qed

lemma wq_iter_no_fs:
  assumes "\<And>c st st1. body c st \<noteq> Inl (Assert_same_fs, st1)"
  shows "\<not> raises (snd (wq_iter body truth filt_crit n st)) Assert_same_fs"
proof -
  let ?st0 = "st\<lparr>synchronous := SyncNormal, wal_autocheckpoint := False,
                   checkpointer_alive := False, checkpointer_done := False\<rparr>"
  obtain ys l where wl: "window_loop body truth filt_crit n (max_size (rows ?st0)) [] ?st0 = (ys, l)"
    by (cases "window_loop body truth filt_crit n (max_size (rows ?st0)) [] ?st0")
  from window_loop_end [of body truth filt_crit n "max_size (rows ?st0)" "[]" ?st0, OF assms] wl
  have "\<not> end_raises l Assert_same_fs" by simp
  with wl show ?thesis
    by (auto simp: wq_iter_def Let_def end_raises_def split: loop_end.splits)
qed

lemma dedup_tracked1_no_fs:
  "\<not> raises (dedup_tracked1 w truth res filt_crit f st) Assert_same_fs"
proof -
  let ?st = "st\<lparr>space_gain1 := 0, space_gain2 := 0, space_gain3 := 0\<rparr>"
  obtain ys r where wq: "wq_iter (dedup_group w res f) truth filt_crit WINDOW_SIZE ?st = (ys, r)"
    by (cases "wq_iter (dedup_group w res f) truth filt_crit WINDOW_SIZE ?st")
  from wq_iter_no_fs [of "dedup_group w res f" truth filt_crit WINDOW_SIZE ?st] wq
  have "\<not> raises r Assert_same_fs" by (simp add: dedup_group_no_fs)
  with wq show ?thesis
    by (cases r) (auto simp: dedup_tracked1_def raises_iff)
qed

lemma after_assert_no_fs: "\<not> raises (after_assert w truth volset f st) Assert_same_fs"
  using dedup_tracked1_no_fs [of w truth "ofile_reserved_for volset"
      "\<lambda>r. vol_id r \<in> set (map vid volset)" f st]
  by (auto simp: after_assert_def Let_def raises_iff split: sum.splits)

text \<open>
  Claim C10. Given a volset in which two volumes belong to different filesystems,
  \<open>dedup_tracked\<close> fails its assertion with the session untouched: no query, no share
  work, no commit. Given a non-empty volset whose volumes all belong to the first one's
  filesystem, the assertion passes, the run is the rest of the function, and no
  AssertionError of this assertion is raised anywhere in it.
\<close>

theorem same_filesystem_assertion:
  "(v \<in> set volset \<and> v' \<in> set volset \<and> fs v \<noteq> fs v' \<longrightarrow>
      dedup_tracked w truth volset st = Inl (Assert_same_fs, st))
   \<and> (volset \<noteq> [] \<and> (\<forall>vol\<in>set volset. fs vol = fs (hd volset)) \<longrightarrow>
      dedup_tracked w truth volset st = after_assert w truth volset (fs (hd volset)) st
      \<and> \<not> raises (dedup_tracked w truth volset st) Assert_same_fs)"
proof (intro conjI impI)
  assume a: "v \<in> set volset \<and> v' \<in> set volset \<and> fs v \<noteq> fs v'"
  then obtain vol0 rest where vs: "volset = vol0 # rest" by (cases volset) auto
  from a have "fs v \<noteq> fs vol0 \<or> fs v' \<noteq> fs vol0" by auto
  with a have "\<exists>vol\<in>set volset. fs vol \<noteq> fs vol0" by blast
  then have "\<not> list_all (\<lambda>vol. fs vol = fs vol0) volset"
    by (simp add: list_all_iff)
  then show "dedup_tracked w truth volset st = Inl (Assert_same_fs, st)"
    by (simp add: dedup_tracked_def vs)
next
  assume b: "volset \<noteq> [] \<and> (\<forall>vol\<in>set volset. fs vol = fs (hd volset))"
  then obtain vol0 rest where vs: "volset = vol0 # rest" by (cases volset) auto
  from b have "list_all (\<lambda>vol. fs vol = fs vol0) volset"
    by (simp add: list_all_iff vs)
  then show eq: "dedup_tracked w truth volset st = after_assert w truth volset (fs (hd volset)) st"
    by (simp add: dedup_tracked_def vs)
  show "\<not> raises (dedup_tracked w truth volset st) Assert_same_fs"
    unfolding eq by (rule after_assert_no_fs)
qed

theorem same_filesystem_assertion_witness:
  "dedup_tracked quiet_world (\<lambda>c. Some True) [a_volume 1 1, a_volume 2 2]
       (a_session [file_no 1, file_no 2] 1024 4096)
     = Inl (Assert_same_fs, a_session [file_no 1, file_no 2] 1024 4096)
   \<and> \<not> raises (dedup_tracked quiet_world (\<lambda>c. Some True) [a_volume 1 1, a_volume 2 1]
                 (a_session [file_no 1, file_no 2] 1024 4096)) Assert_same_fs"
proof -
  let ?st = "a_session [file_no 1, file_no 2] 1024 4096"
  have h1: "a_volume 1 1 \<in> set [a_volume 1 1, a_volume 2 2]
          \<and> a_volume 2 2 \<in> set [a_volume 1 1, a_volume 2 2]
          \<and> fs (a_volume 1 1) \<noteq> fs (a_volume 2 2)"
    by (simp add: a_volume_def)
  have h2: "[a_volume 1 1, a_volume 2 1] \<noteq> []
          \<and> (\<forall>vol\<in>set [a_volume 1 1, a_volume 2 1]. fs vol = fs (hd [a_volume 1 1, a_volume 2 1]))"
    by (simp add: a_volume_def)
  from same_filesystem_assertion [of "a_volume 1 1" "[a_volume 1 1, a_volume 2 2]" "a_volume 2 2"
      quiet_world "\<lambda>c. Some True" ?st] h1
  have a: "dedup_tracked quiet_world (\<lambda>c. Some True) [a_volume 1 1, a_volume 2 2] ?st
             = Inl (Assert_same_fs, ?st)"
    by blast
  from same_filesystem_assertion [of _ "[a_volume 1 1, a_volume 2 1]" _
      quiet_world "\<lambda>c. Some True" ?st] h2
  have b: "\<not> raises (dedup_tracked quiet_world (\<lambda>c. Some True) [a_volume 1 1, a_volume 2 1] ?st)
             Assert_same_fs"
    by blast
  from a b show ?thesis by blast
qed

section \<open>What the code does where the claims C1, C2 and C8 fail\<close>

text \<open>
  The \<open>while True\<close> loop of \<open>__iter__\<close> is never left: the generator ends by the \<open>return\<close>
  of line 288 or by an exception, so lines 302-305 never run.
\<close>

lemma wq_iter_is_loop_return:
  "\<exists>ys r. window_loop body truth filt_crit n
             (max_size (rows st))
             [] (st\<lparr>synchronous := SyncNormal, wal_autocheckpoint := False,
                    checkpointer_alive := False, checkpointer_done := False\<rparr>)
             = (ys, Returned r)
         \<and> wq_iter body truth filt_crit n st = (ys, r)"
proof -
  let ?st0 = "st\<lparr>synchronous := SyncNormal, wal_autocheckpoint := False,
                    checkpointer_alive := False, checkpointer_done := False\<rparr>"
  obtain ys l where wl: "window_loop body truth filt_crit n (max_size (rows st)) [] ?st0 = (ys, l)"
    by (cases "window_loop body truth filt_crit n (max_size (rows st)) [] ?st0")
  with window_loop_returns [of body truth filt_crit n "max_size (rows st)" "[]" ?st0]
  obtain r where "l = Returned r" by (cases l) (simp_all add: left_loop_def)
  with wl show ?thesis by (simp add: wq_iter_def)
qed

text \<open>
  Whatever truth value the library gives the first comparison, the UPDATE of
  \<open>clear_updates\<close> is bounded on one side only.
\<close>

lemma clear_updates_one_sided:
  assumes "truth (Size_le (Some ws)) = Some b" and "skipped st = []"
  shows "\<exists>st1. clear_updates truth filt_crit (Some ws) we st = Inr st1
           \<and> rows st1 =
               map (\<lambda>r. if filt_crit r \<and> (if b then we \<le> int (isize r) else int (isize r) \<le> ws)
                         then r\<lparr>has_updates := False\<rparr> else r) (rows st)"
  using assms
  by (cases b) (simp_all add: clear_updates_def chained_ge_def Let_def please_checkpoint_def emit_def)

text \<open>
  Claim C1 at a catalog with sizes 100, 50, 50, 10, all flagged, in volume 1. The claim's
  range \<open>[50, 50]\<close> leaves the rows of sizes 100 and 10 flagged. The code clears size 100
  too when the first comparison's truth value is true, size 10 too when it is false, and
  raises TypeError when the library refuses a truth value. Over the pass the calls are
  \<open>clear_updates(50, 50)\<close> and \<open>clear_updates(49, 0)\<close>, while the initial \<open>window_start\<close>
  is 100: sizes 51 to 100 are in no call's range, and the row of size 100 stays flagged.
\<close>

theorem clear_updates_range_evaluated:
  "map has_updates (spec_clear_updates in_volume_1 50 50 four_sizes) = [True, False, False, True]
   \<and> map has_updates (rows (state_of
        (clear_updates (always True) in_volume_1 (Some 50) 50 (a_session four_sizes 1024 4096))))
      = [False, False, False, True]
   \<and> map has_updates (rows (state_of
        (clear_updates (always False) in_volume_1 (Some 50) 50 (a_session four_sizes 1024 4096))))
      = [True, False, False, False]
   \<and> clear_updates never_defined in_volume_1 (Some 50) 50 (a_session four_sizes 1024 4096)
      = Inl (TypeError, a_session four_sizes 1024 4096)
   \<and> max_size four_sizes = Some 100
   \<and> filter is_clear_updates (log (state_of
        (dedup_tracked quiet_world (always False) [a_volume 1 1] (a_session four_sizes 1024 4096))))
      = [Clear_updates (Some 50) 50, Clear_updates (Some 49) 0]
   \<and> map has_updates (rows (state_of
        (dedup_tracked quiet_world (always False) [a_volume 1 1] (a_session four_sizes 1024 4096))))
      = [True, False, False, False]"
  by code_simp

text \<open>
  Claim C2 at a catalog of three files of size 50, all flagged, in volume 1, with the
  open-files limits (10, 12). The request is \<open>2 * 3 + (7 + 1) = 14\<close>, above the hard limit:
  the group is abandoned with the notice and its three inodes appended to the skip list,
  no file is opened read-write and no event is written, as the claim says. The claim says
  that so all three remain flagged for the next pass. When the pass has returned, the
  three rows have \<open>has_updates = False\<close>, whichever truth value the library gives the
  first comparison and whether or not a commit unloads the session's objects: the objects
  on the skip list still hold \<open>True\<close>, so the assignments of line 317 change nothing and
  write nothing after the UPDATE of line 309 has cleared the rows. When the library
  refuses a truth value the pass ends by TypeError at the first \<open>clear_updates\<close>.
\<close>

theorem abandoned_group_loses_flags:
  "ofile_reserved_for [a_volume 1 1] = 8
   \<and> open_and_share quiet_world 8 1 50 three_files (a_session three_files 10 12)
       = Inr ((a_session three_files 10 12)
                \<lparr>skipped := three_files, log := [Note (Too_many_duplicates 3 50 10 12)]\<rparr>)
   \<and> map has_updates three_files = [True, True, True]
   \<and> log (state_of
        (dedup_tracked quiet_world (always True) [a_volume 1 1] (a_session three_files 10 12)))
      = [Note (Too_many_duplicates 3 50 10 12),
         Clear_updates (Some 50) 50, Commit, Please_checkpoint,
         Clear_updates (Some 49) 0, Commit, Please_checkpoint,
         Note (Space_gain 100 100 100), Commit]
   \<and> events (state_of
        (dedup_tracked quiet_world (always True) [a_volume 1 1] (a_session three_files 10 12)))
      = []
   \<and> map has_updates (rows (state_of
        (dedup_tracked quiet_world (always True) [a_volume 1 1] (a_session three_files 10 12))))
      = [False, False, False]
   \<and> map has_updates (rows (state_of
        (dedup_tracked quiet_world (always False) [a_volume 1 1] (a_session three_files 10 12))))
      = [False, False, False]
   \<and> map has_updates (rows (state_of
        (dedup_tracked quiet_world (always True) [a_volume 1 1]
           ((a_session three_files 10 12)\<lparr>expire_on_commit := False\<rparr>))))
      = [False, False, False]
   \<and> map has_updates (rows (state_of
        (dedup_tracked quiet_world (always False) [a_volume 1 1]
           ((a_session three_files 10 12)\<lparr>expire_on_commit := False\<rparr>))))
      = [False, False, False]
   \<and> raises
        (dedup_tracked quiet_world never_defined [a_volume 1 1] (a_session three_files 10 12))
        TypeError"
  by code_simp

text \<open>
  Claim C8 at a pass that deduplicates two files: when \<open>dedup_tracked\<close> has returned, after
  its terminal commit, the connection is still in synchronous=NORMAL and the checkpointer
  thread, started by the first checkpoint request, has not been closed.
\<close>

theorem pass_ends_in_relaxed_mode:
  "(case dedup_tracked quiet_world (always True) [a_volume 1 1]
           (a_session [file_no 1, file_no 2] 1024 4096) of
      Inl err \<Rightarrow> False
    | Inr final \<Rightarrow>
        synchronous final = SyncNormal \<and> checkpointer_alive final
        \<and> \<not> checkpointer_done final \<and> last (log final) = Commit
        \<and> events final = [\<lparr>ev_fs = 1, item_size = 50, ev_inodes = [(1, 1), (1, 2)]\<rparr>])"
  by code_simp

section \<open>Properties of the Scanner\<close>

lemma scan_item_vol: "vol (scan_item w mg sh st) = vol st"
  by (simp add: scan_item_def Let_def split: prod.splits sum.splits option.splits)

lemma scan_items_vol: "vol (scan_items w mg shs st) = vol st"
  by (induction shs arbitrary: st) (simp_all add: scan_item_vol)

lemma scan_state_of_simps [simp]:
  "scan_state_of (Inl (e, st)) = st" "scan_state_of (Inr st) = st"
  by (simp_all add: scan_state_of_def)

lemma search_loop_vol:
  "search_loop w mg sk st = Some y \<Longrightarrow> vol (scan_state_of y) = vol st"
proof (erule search_loop.raw_induct [rotated], goal_cases)
  case (1 sl w mg sk st y)
  show ?case
  proof (cases "tree_search w sk")
    case (Inl e)
    with 1(2) show ?thesis by auto
  next
    case (Inr items)
    show ?thesis
    proof (cases "items = []")
      case True
      with 1(2) Inr show ?thesis by auto
    next
      case False
      show ?thesis
      proof (cases "sh_offset (last items) + 1 > u64_max")
        case True
        with 1(2) Inr False show ?thesis by (auto simp: Let_def scan_items_vol)
      next
        case no_overflow: False
        with 1(2) Inr False have
          "sl w mg (next_key sk (last items)) (scan_items w mg items st) = Some y"
          by (simp add: Let_def)
        from 1(1) [OF this] show ?thesis by (simp add: scan_items_vol)
      qed
    qed
  qed
qed

text \<open>When the kernel ends the iteration, the loop over batches returns normally.\<close>

lemma search_loop_returns:
  "scan_ends w sk n \<Longrightarrow> \<exists>st1. search_loop w mg sk st = Some (Inr st1)"
proof (induction n arbitrary: sk st)
  case 0
  then show ?case by (subst search_loop.simps) simp
next
  case (Suc n)
  then obtain items where items: "tree_search w sk = Inr items" "items \<noteq> []"
    "sh_offset (last items) < u64_max" "scan_ends w (next_key sk (last items)) n"
    by (auto split: sum.splits)
  from Suc.IH [OF items(4), of "scan_items w mg items st"] obtain st1 where
    "search_loop w mg (next_key sk (last items)) (scan_items w mg items st) = Some (Inr st1)"
    by blast
  with items show ?case by (subst search_loop.simps) (simp add: Let_def)
qed

text \<open>
  Claim C6. Let \<open>bound\<close> be \<open>last_tracked_generation + 1\<close> when \<open>last_tracked_size_cutoff\<close> is
  set and not above the current cutoff, and 0 otherwise, and \<open>top\<close> the volume's top
  generation. When \<open>bound\<close> is above \<open>top\<close> the scan returns with the volume and the Inode
  rows as they were. Otherwise the kernel is searched from the first key with
  \<open>min_transid = bound\<close>, and when it ends the iteration the scan returns normally with
  \<open>last_tracked_generation = top\<close> and \<open>last_tracked_size_cutoff\<close> the current cutoff, the
  rest of the volume as it was; no scan returns normally otherwise than so, and a scan
  that raises leaves the volume as it was.
\<close>

theorem scan_watermark:
  assumes "bound =
             (if \<exists>c. last_tracked_size_cutoff (vol st) = Some c \<and> c \<le> size_cutoff (vol st)
              then last_tracked_generation (vol st) + 1 else 0)"
    and "top_gen = get_root_generation w"
  shows "(top_gen < bound \<longrightarrow>
            track_updated_files w st =
              Some (Inr (st\<lparr>scan_log := scan_log st @ [Notify_skipping top_gen, Scan_commit]\<rparr>)))
    \<and> (bound \<le> top_gen
        \<and> scan_ends w \<lparr>min_objectid = 0, min_type = 0, min_offset = 0, min_transid = bound\<rparr> n
        \<longrightarrow> (\<exists>st2. track_updated_files w st = Some (Inr st2)
                 \<and> vol st2 = (vol st)\<lparr>last_tracked_generation := top_gen,
                                        last_tracked_size_cutoff := Some (size_cutoff (vol st))\<rparr>))
    \<and> (bound \<le> top_gen \<and> track_updated_files w st = Some (Inr st3) \<longrightarrow>
          vol st3 = (vol st)\<lparr>last_tracked_generation := top_gen,
                             last_tracked_size_cutoff := Some (size_cutoff (vol st))\<rparr>)
    \<and> (track_updated_files w st = Some (Inl (err, st4)) \<longrightarrow> vol st4 = vol st)"
proof -
  have bound: "bound = min_generation_of (vol st)"
    by (simp add: assms(1) min_generation_of_def split: option.splits)
  let ?st0 = "st\<lparr>scan_log := scan_log st @
                 [Notify_scanning bound top_gen (size_cutoff (vol st))]\<rparr>"
  let ?sk = "\<lparr>min_objectid = 0, min_type = 0, min_offset = 0, min_transid = bound\<rparr>"
  have due: "track_updated_files w st =
               (case search_loop w bound ?sk ?st0 of
                  None \<Rightarrow> None
                | Some (Inl e) \<Rightarrow> Some (Inl e)
                | Some (Inr st1) \<Rightarrow>
                    Some (Inr (st1\<lparr>vol := (vol st1)\<lparr>last_tracked_generation := top_gen,
                                     last_tracked_size_cutoff := Some (size_cutoff (vol st1))\<rparr>,
                                   scan_log := scan_log st1 @ [Scan_commit]\<rparr>)))"
    if "bound \<le> top_gen"
    using that unfolding bound assms(2) by (simp add: track_updated_files_def Let_def)
  have normal: "vol st3 = (vol st)\<lparr>last_tracked_generation := top_gen,
                             last_tracked_size_cutoff := Some (size_cutoff (vol st))\<rparr>"
    if "bound \<le> top_gen" and "track_updated_files w st = Some (Inr st3)" for st3
  proof -
    from that due obtain st1 where
      loop: "search_loop w bound ?sk ?st0 = Some (Inr st1)"
      and st3: "st3 = st1\<lparr>vol := (vol st1)\<lparr>last_tracked_generation := top_gen,
                                     last_tracked_size_cutoff := Some (size_cutoff (vol st1))\<rparr>,
                         scan_log := scan_log st1 @ [Scan_commit]\<rparr>"
      by (auto split: option.splits sum.splits)
    from search_loop_vol [OF loop] have "vol st1 = vol st" by simp
    with st3 show ?thesis by simp
  qed
  show ?thesis
  proof (intro conjI impI)
    assume "top_gen < bound"
    then show "track_updated_files w st =
              Some (Inr (st\<lparr>scan_log := scan_log st @ [Notify_skipping top_gen, Scan_commit]\<rparr>))"
      by (simp add: track_updated_files_def Let_def bound assms(2))
  next
    assume a: "bound \<le> top_gen \<and> scan_ends w ?sk n"
    from search_loop_returns [of w ?sk n bound ?st0] a obtain st1 where
      "search_loop w bound ?sk ?st0 = Some (Inr st1)" by blast
    with a due obtain st2 where run: "track_updated_files w st = Some (Inr st2)" by simp
    with a normal [of st2]
    show "\<exists>st2. track_updated_files w st = Some (Inr st2)
                 \<and> vol st2 = (vol st)\<lparr>last_tracked_generation := top_gen,
                                        last_tracked_size_cutoff := Some (size_cutoff (vol st))\<rparr>"
      by blast
  next
    assume "bound \<le> top_gen \<and> track_updated_files w st = Some (Inr st3)"
    then show "vol st3 = (vol st)\<lparr>last_tracked_generation := top_gen,
                             last_tracked_size_cutoff := Some (size_cutoff (vol st))\<rparr>"
      using normal by blast
  next
    assume e: "track_updated_files w st = Some (Inl (err, st4))"
    show "vol st4 = vol st"
    proof (cases "bound \<le> top_gen")
      case True
      with e due have "search_loop w bound ?sk ?st0 = Some (Inl (err, st4))"
        by (auto split: option.splits sum.splits)
      from search_loop_vol [OF this] show ?thesis by simp
    next
      case False
      with e show ?thesis
        by (simp add: track_updated_files_def Let_def bound assms(2))
    qed
  qed
qed

lemmas scan_sample_defs =
  track_updated_files_def min_generation_of_def one_item_world_def a_scan_def
  scanned_volume_def after_scan_def item_257_def scan_item_def item_wanted_def
  BTRFS_INODE_ITEM_KEY_def S_ISREG_def get_or_create_def set_size_updated_def key_def
  an_inode_def undecodable_def next_key_def u64_max_def Let_def

lemma run_decodable:
  "track_updated_files (one_item_world Some) (a_scan [] (scanned_volume 5))
     = Some (Inr (after_scan [Notify_scanning 6 9 16, Update_path ''f'',
                              Update_desc 257 9 9 4096, Scan_commit]))"
  by (simp add: scan_sample_defs search_loop.simps)



theorem scan_watermark_witness:
  "track_updated_files (one_item_world Some) (a_scan [] (scanned_volume 9))
     = Some (Inr ((a_scan [] (scanned_volume 9))
                    \<lparr>scan_log := [Notify_skipping 9, Scan_commit]\<rparr>))
   \<and> (\<exists>st2. track_updated_files (one_item_world Some) (a_scan [] (scanned_volume 5))
               = Some (Inr st2)
            \<and> vol st2 = scanned_volume 9)
   \<and> track_updated_files (one_item_world Some) (a_scan [] (scanned_volume 5))
       = Some (Inr (after_scan [Notify_scanning 6 9 16, Update_path ''f'',
                                Update_desc 257 9 9 4096, Scan_commit]))
   \<and> (\<exists>st4. track_updated_files unreadable_world (a_scan [] (scanned_volume 5))
               = Some (Inl (IOError EIO, st4))
            \<and> vol st4 = scanned_volume 5)
   \<and> (\<exists>st4. track_updated_files last_offset_world (a_scan [] (scanned_volume 5))
               = Some (Inl (OverflowError, st4))
            \<and> vol st4 = scanned_volume 5)"
proof -
  let ?w = "one_item_world Some"
  let ?s5 = "a_scan [] (scanned_volume 5)"
  let ?s9 = "a_scan [] (scanned_volume 9)"
  have top: "(9::nat) = get_root_generation ?w" by (simp add: one_item_world_def)
  have top_u: "(9::nat) = get_root_generation unreadable_world"
    by (simp add: unreadable_world_def one_item_world_def)
  have top_l: "(9::nat) = get_root_generation last_offset_world"
    by (simp add: last_offset_world_def one_item_world_def)
  have b9: "(10::nat) =
             (if \<exists>c. last_tracked_size_cutoff (vol ?s9) = Some c \<and> c \<le> size_cutoff (vol ?s9)
              then last_tracked_generation (vol ?s9) + 1 else 0)"
    by (simp add: a_scan_def scanned_volume_def)
  have b5: "(6::nat) =
             (if \<exists>c. last_tracked_size_cutoff (vol ?s5) = Some c \<and> c \<le> size_cutoff (vol ?s5)
              then last_tracked_generation (vol ?s5) + 1 else 0)"
    by (simp add: a_scan_def scanned_volume_def)
  have v5: "vol ?s5 = scanned_volume 5" by (simp add: a_scan_def)
  have v9: "(vol ?s5)\<lparr>last_tracked_generation := 9,
                       last_tracked_size_cutoff := Some (size_cutoff (vol ?s5))\<rparr>
            = scanned_volume 9"
    by (simp add: a_scan_def scanned_volume_def)
  from scan_watermark [OF b9 top, of 0]
  have "(9::nat) < 10 \<longrightarrow>
          track_updated_files ?w ?s9 =
            Some (Inr (?s9\<lparr>scan_log := scan_log ?s9 @ [Notify_skipping 9, Scan_commit]\<rparr>))"
    by (rule conjunct1)
  then have noop: "track_updated_files ?w ?s9
     = Some (Inr (?s9\<lparr>scan_log := [Notify_skipping 9, Scan_commit]\<rparr>))"
    by (simp add: a_scan_def)
  have ends: "(6::nat) \<le> 9
     \<and> scan_ends ?w \<lparr>min_objectid = 0, min_type = 0, min_offset = 0, min_transid = 6\<rparr> (Suc 0)"
    by (simp add: one_item_world_def item_257_def next_key_def u64_max_def)
  from scan_watermark [OF b5 top, of "Suc 0"] ends
  have "\<exists>st2. track_updated_files ?w ?s5 = Some (Inr st2)
              \<and> vol st2 = (vol ?s5)\<lparr>last_tracked_generation := 9,
                    last_tracked_size_cutoff := Some (size_cutoff (vol ?s5))\<rparr>"
    by blast
  then have run: "\<exists>st2. track_updated_files ?w ?s5 = Some (Inr st2) \<and> vol st2 = scanned_volume 9"
    unfolding v9 .
  have "\<exists>st4. track_updated_files unreadable_world ?s5 = Some (Inl (IOError EIO, st4))"
    by (simp add: scan_sample_defs unreadable_world_def search_loop.simps)
  then obtain st4 where
    refused: "track_updated_files unreadable_world ?s5 = Some (Inl (IOError EIO, st4))" ..
  from scan_watermark [OF b5 top_u, of _ _ "IOError EIO" st4] refused
  have "vol st4 = vol ?s5" by blast
  with refused have unreadable:
    "\<exists>st4. track_updated_files unreadable_world ?s5 = Some (Inl (IOError EIO, st4))
          \<and> vol st4 = scanned_volume 5"
    unfolding v5 by blast
  have "\<exists>st5. track_updated_files last_offset_world ?s5 = Some (Inl (OverflowError, st5))"
    by (simp add: scan_sample_defs last_offset_world_def search_loop.simps)
  then obtain st5 where
    over: "track_updated_files last_offset_world ?s5 = Some (Inl (OverflowError, st5))" ..
  from scan_watermark [OF b5 top_l, of _ _ OverflowError st5] over
  have "vol st5 = vol ?s5" by blast
  with over have overflow:
    "\<exists>st4. track_updated_files last_offset_world ?s5 = Some (Inl (OverflowError, st4))
          \<and> vol st4 = scanned_volume 5"
    unfolding v5 by blast
  from noop run run_decodable unreadable overflow show ?thesis by blast
qed





end
